theory Spec2Isabelle
  imports Main "HOL-Library.Product_Lexorder"
begin

section \<open>The Minesweeper knowledge engine of minesweeper.py\<close>

text \<open>
  The model follows the classes \<^verbatim>\<open>Sentence\<close> and \<^verbatim>\<open>MinesweeperAI\<close> of
  \<^verbatim>\<open>src/minesweeper.py\<close>. A cell is a pair of Python integers. A Python set of cells is
  a HOL set; every set the program builds is finite. Objects are mutated in place in the
  source; the model passes the state explicitly and returns the updated state.
\<close>

type_synonym cell = "int \<times> int"

datatype error = KeyError | ValueError

subsection \<open>Class Sentence\<close>

record sentence =
  cells :: "cell set"
  count :: int

text \<open>\<^verbatim>\<open>Sentence.__init__\<close>. Equality of sentences (\<^verbatim>\<open>__eq__\<close>: equal cell sets and equal
  counts) is equality of the record.\<close>

definition Sentence :: "cell set \<Rightarrow> int \<Rightarrow> sentence" where
  "Sentence cs n = \<lparr>cells = cs, count = n\<rparr>"

text \<open>\<^verbatim>\<open>known_mines\<close> and \<^verbatim>\<open>known_safes\<close> return a fresh copy of the cell set. The
  sentence they were called on is returned as the second component, so that the absence of a
  side effect is a statement about the model.\<close>

definition known_mines :: "sentence \<Rightarrow> cell set \<times> sentence" where
  "known_mines s =
     (if count s = int (card (cells s)) then (cells s, s) else ({}, s))"

definition known_safes :: "sentence \<Rightarrow> cell set \<times> sentence" where
  "known_safes s =
     (if count s = 0 then (cells s, s) else ({}, s))"

definition sentence_mark_mine :: "cell \<Rightarrow> sentence \<Rightarrow> sentence" where
  "sentence_mark_mine cell s =
     (if cell \<in> cells s then s\<lparr>cells := cells s - {cell}, count := count s - 1\<rparr> else s)"

definition sentence_mark_safe :: "cell \<Rightarrow> sentence \<Rightarrow> sentence" where
  "sentence_mark_safe cell s =
     (if cell \<in> cells s then s\<lparr>cells := cells s - {cell}\<rparr> else s)"

subsection \<open>Class MinesweeperAI\<close>

record ai =
  height :: int
  width :: int
  moves_made :: "cell set"
  mines :: "cell set"
  safes :: "cell set"
  knowledge :: "sentence list"

definition MinesweeperAI :: "int \<Rightarrow> int \<Rightarrow> ai" where
  "MinesweeperAI h w =
     \<lparr>height = h, width = w, moves_made = {}, mines = {}, safes = {}, knowledge = []\<rparr>"

text \<open>\<^verbatim>\<open>mark_mine\<close> and \<^verbatim>\<open>mark_safe\<close> of the engine: the sentences stored in the list are
  objects, each one is updated in place, so the list keeps its length and its order.\<close>

definition mark_mine :: "cell \<Rightarrow> ai \<Rightarrow> ai" where
  "mark_mine cell st =
     st\<lparr>mines := insert cell (mines st),
        knowledge := map (sentence_mark_mine cell) (knowledge st)\<rparr>"

definition mark_safe :: "cell \<Rightarrow> ai \<Rightarrow> ai" where
  "mark_safe cell st =
     st\<lparr>safes := insert cell (safes st),
        knowledge := map (sentence_mark_safe cell) (knowledge st)\<rparr>"

text \<open>\<^verbatim>\<open>find_neighbours\<close>: the in-bounds cells of the 3x3 block around the cell; the final
  \<^verbatim>\<open>answer.remove((i, j))\<close> raises KeyError when the cell itself is out of bounds.\<close>

definition find_neighbours :: "ai \<Rightarrow> cell \<Rightarrow> error + cell set" where
  "find_neighbours st cell =
     (let i = fst cell; j = snd cell;
          answer = set (concat (map (\<lambda>row. concat (map (\<lambda>col.
                     if 0 \<le> row \<and> row < height st \<and> 0 \<le> col \<and> col < width st
                     then [(row, col)] else []) [j - 1 .. j + 1])) [i - 1 .. i + 1]))
      in if (i, j) \<in> answer then Inr (answer - {(i, j)}) else Inl KeyError)"

text \<open>The order in which Python iterates over a set is not fixed by the language. The
  model takes it as a parameter: a function that lists the elements of a set. The only
  thing assumed of it is that it lists every element of a finite set exactly once.\<close>

type_synonym set_order = "cell set \<Rightarrow> cell list"

definition valid_order :: "set_order \<Rightarrow> bool" where
  "valid_order enum \<longleftrightarrow> (\<forall>S. finite S \<longrightarrow> set (enum S) = S \<and> distinct (enum S))"

text \<open>The guarded append \<^verbatim>\<open>if s not in self.knowledge: self.knowledge.append(s)\<close>.\<close>

definition append_new :: "sentence \<Rightarrow> ai \<Rightarrow> ai" where
  "append_new s st =
     (if s \<notin> set (knowledge st) then st\<lparr>knowledge := knowledge st @ [s]\<rparr> else st)"

text \<open>\<^verbatim>\<open>add_safes\<close> and \<^verbatim>\<open>add_mines\<close>. The sentence passed in is never an element of the
  knowledge list (both callers pass a sentence they have just built), so it is not changed
  by the propagation inside the loop, and the loop runs over the copy of its cells that
  \<^verbatim>\<open>known_safes\<close> returned.\<close>

definition add_safes_step :: "sentence \<Rightarrow> cell \<Rightarrow> ai \<Rightarrow> ai" where
  "add_safes_step sentence cll st =
     (let st1 = mark_safe cll st;
          st2 = st1\<lparr>safes := insert cll (safes st1)\<rparr>
      in if card (cells sentence) > 1
         then append_new (Sentence (cells sentence - {cll}) (count sentence)) st2
         else st2)"

definition add_safes :: "set_order \<Rightarrow> sentence \<Rightarrow> ai \<Rightarrow> ai" where
  "add_safes enum sentence st =
     fold (add_safes_step sentence) (enum (fst (known_safes sentence))) st"

definition add_mines_step :: "sentence \<Rightarrow> cell \<Rightarrow> ai \<Rightarrow> ai" where
  "add_mines_step sentence cll st =
     (let st1 = mark_mine cll st;
          st2 = st1\<lparr>mines := insert cll (mines st1)\<rparr>
      in if card (cells sentence) > 1
         then append_new (Sentence (cells sentence - {cll}) (count sentence - 1)) st2
         else st2)"

definition add_mines :: "set_order \<Rightarrow> sentence \<Rightarrow> ai \<Rightarrow> ai" where
  "add_mines enum sentence st =
     fold (add_mines_step sentence) (enum (fst (known_mines sentence))) st"

text \<open>The body of the inner loop of \<^verbatim>\<open>add_knowledge\<close> for the sentences at the
  positions \<open>i\<close> and \<open>j\<close> of the list.\<close>

definition closure_body :: "set_order \<Rightarrow> nat \<Rightarrow> nat \<Rightarrow> ai \<Rightarrow> ai" where
  "closure_body enum i j st =
     (let snt = knowledge st ! i; snt2 = knowledge st ! j
      in if snt \<noteq> snt2 \<and> cells snt \<subset> cells snt2
         then let new_sent = Sentence (cells snt2 - cells snt) (count snt2 - count snt);
                  st1 = add_safes enum new_sent st;
                  st2 = add_mines enum new_sent st1
              in if count new_sent \<noteq> 0 \<and> count new_sent \<noteq> int (card (cells new_sent))
                    \<and> new_sent \<notin> set (knowledge st2)
                 then st2\<lparr>knowledge := knowledge st2 @ [new_sent]\<rparr>
                 else st2
         else st)"

text \<open>The two nested \<^verbatim>\<open>for\<close> loops over \<^verbatim>\<open>self.knowledge\<close>. A Python list iterator keeps
  an index and compares it with the current length of the list before each step, so
  sentences appended by the body are visited too, and the loops need not end. The model
  counts loop steps against a fuel: the result is the state reached, with the flag
  \<open>True\<close> when the outer loop was exhausted and \<open>False\<close> when the fuel ran out first.\<close>

fun closure :: "set_order \<Rightarrow> nat \<Rightarrow> nat \<Rightarrow> nat \<Rightarrow> ai \<Rightarrow> bool \<times> ai" where
  "closure enum fuel i j st =
     (if length (knowledge st) \<le> i then (True, st)
      else case fuel of
             0 \<Rightarrow> (False, st)
           | Suc fuel' \<Rightarrow>
               if length (knowledge st) \<le> j then closure enum fuel' (Suc i) 0 st
               else closure enum fuel' i (Suc j) (closure_body enum i j st))"

declare closure.simps [simp del]

text \<open>The part of \<^verbatim>\<open>add_knowledge\<close> before the loops. When \<^verbatim>\<open>find_neighbours\<close> raises,
  the cell has already been recorded as a move and marked safe; the state at the raise is
  kept with the error.\<close>

definition add_knowledge_start :: "set_order \<Rightarrow> cell \<Rightarrow> int \<Rightarrow> ai \<Rightarrow> error \<times> ai + ai" where
  "add_knowledge_start enum cell n st =
     (let st1 = st\<lparr>moves_made := insert cell (moves_made st)\<rparr>;
          st2 = mark_safe cell st1
      in case find_neighbours st2 cell of
           Inl e \<Rightarrow> Inl (e, st2)
         | Inr nb \<Rightarrow>
             let sent = Sentence nb n;
                 st3 = add_safes enum sent st2;
                 st4 = add_mines enum sent st3
             in Inr (append_new sent st4))"

text \<open>\<^verbatim>\<open>add_knowledge\<close>: \<open>None\<close> when the loops did not end within the fuel.\<close>

definition add_knowledge :: "set_order \<Rightarrow> nat \<Rightarrow> cell \<Rightarrow> int \<Rightarrow> ai \<Rightarrow> (error \<times> ai + ai) option" where
  "add_knowledge enum fuel cell n st =
     (case add_knowledge_start enum cell n st of
        Inl e \<Rightarrow> Some (Inl e)
      | Inr st5 \<Rightarrow>
          (case closure enum fuel 0 0 st5 of
             (True, st') \<Rightarrow> Some (Inr st')
           | (False, st') \<Rightarrow> None))"

text \<open>\<^verbatim>\<open>make_safe_move\<close>: the first cell, in the iteration order of \<^verbatim>\<open>self.safes\<close>, that
  is not a move made; it is added to the moves made.\<close>

definition make_safe_move :: "set_order \<Rightarrow> ai \<Rightarrow> cell option \<times> ai" where
  "make_safe_move enum st =
     (case find (\<lambda>cll. cll \<notin> moves_made st) (enum (safes st)) of
        Some cll \<Rightarrow> (Some cll, st\<lparr>moves_made := insert cll (moves_made st)\<rparr>)
      | None \<Rightarrow> (None, st))"

text \<open>\<^verbatim>\<open>random.randint(a, b)\<close> raises ValueError on an empty range and otherwise returns
  some integer between \<open>a\<close> and \<open>b\<close>, both included. The random source is a sequence
  of natural numbers; the draw number \<open>k\<close> is reduced into the range.\<close>

definition randint :: "(nat \<Rightarrow> nat) \<Rightarrow> nat \<Rightarrow> int \<Rightarrow> int \<Rightarrow> error + int" where
  "randint rnd k a b =
     (if b < a then Inl ValueError else Inr (a + int (rnd k mod nat (b - a + 1))))"

text \<open>\<^verbatim>\<open>make_random_move\<close>: the loop \<^verbatim>\<open>while True\<close> may run forever; not returning is the
  value \<open>None\<close>. Each round takes two draws, the row first.\<close>

partial_function (option) make_random_move ::
    "(nat \<Rightarrow> nat) \<Rightarrow> nat \<Rightarrow> ai \<Rightarrow> ((error + cell) \<times> ai) option" where
  "make_random_move rnd k st =
     (case randint rnd k 0 (height st - 1) of
        Inl e \<Rightarrow> Some (Inl e, st)
      | Inr r \<Rightarrow>
          (case randint rnd (k + 1) 0 (width st - 1) of
             Inl e \<Rightarrow> Some (Inl e, st)
           | Inr c \<Rightarrow>
               if (r, c) \<notin> moves_made st
               then (if (r, c) \<notin> mines st then Some (Inr (r, c), st)
                     else make_random_move rnd (k + 2) st)
               else make_random_move rnd (k + 2) st))"


section \<open>Notions used to state the properties\<close>

text \<open>The state an outcome of \<^verbatim>\<open>add_knowledge\<close> leaves behind, returned or raised.\<close>

definition result_state :: "error \<times> ai + ai \<Rightarrow> ai" where
  "result_state r = (case r of Inl (e, st) \<Rightarrow> st | Inr st \<Rightarrow> st)"

text \<open>A mine layout is the set \<open>M\<close> of the cells that hold a mine. A sentence is true
  for the layout when its count is the number of its cells that are mines. A report
  \<^verbatim>\<open>add_knowledge(cell, n)\<close> is truthful when the cell is not a mine (the board reports
  a count for a revealed safe cell only) and \<open>n\<close> is the number of mines among the
  neighbours of the cell.\<close>

definition sentence_true :: "cell set \<Rightarrow> sentence \<Rightarrow> bool" where
  "sentence_true M s \<longleftrightarrow> finite (cells s) \<and> count s = int (card (cells s \<inter> M))"

definition truthful :: "cell set \<Rightarrow> ai \<Rightarrow> cell \<Rightarrow> int \<Rightarrow> bool" where
  "truthful M st cell n \<longleftrightarrow>
     cell \<notin> M \<and> (\<forall>nb. find_neighbours st cell = Inr nb \<longrightarrow> n = int (card (nb \<inter> M)))"

text \<open>The engine state agrees with the layout: no known safe cell is a mine, every known
  mine is one, and every stored sentence is true.\<close>

definition sound :: "cell set \<Rightarrow> ai \<Rightarrow> bool" where
  "sound M st \<longleftrightarrow>
     safes st \<inter> M = {} \<and> mines st \<subseteq> M \<and> (\<forall>s \<in> set (knowledge st). sentence_true M s)"

definition count_in_range :: "sentence \<Rightarrow> bool" where
  "count_in_range s \<longleftrightarrow> 0 \<le> count s \<and> count s \<le> int (card (cells s))"

text \<open>The states between two calls: the fresh engine, and what a truthful report or a
  move query leaves behind (also when the report raised).\<close>

inductive reachable :: "set_order \<Rightarrow> cell set \<Rightarrow> int \<Rightarrow> int \<Rightarrow> ai \<Rightarrow> bool"
  for enum :: set_order and M :: "cell set" and h :: int and w :: int where
  init: "reachable enum M h w (MinesweeperAI h w)"
| clue: "reachable enum M h w st \<Longrightarrow> truthful M st cell n \<Longrightarrow>
         add_knowledge enum fuel cell n st = Some r \<Longrightarrow>
         reachable enum M h w (result_state r)"
| safe_move: "reachable enum M h w st \<Longrightarrow> reachable enum M h w (snd (make_safe_move enum st))"

text \<open>The points of an execution: the states between calls and, inside a truthful report,
  the state after the move is recorded, after the cell is marked safe, after every round of
  the loops of \<^verbatim>\<open>add_safes\<close> and \<^verbatim>\<open>add_mines\<close> on the new sentence, and after every
  number of steps of the nested loops (after 0 steps: just after the new sentence is
  appended).\<close>

inductive engine_point :: "set_order \<Rightarrow> cell set \<Rightarrow> int \<Rightarrow> int \<Rightarrow> ai \<Rightarrow> bool"
  for enum :: set_order and M :: "cell set" and h :: int and w :: int where
  between: "reachable enum M h w st \<Longrightarrow> engine_point enum M h w st"
| recorded: "reachable enum M h w st \<Longrightarrow> truthful M st cell n \<Longrightarrow>
     engine_point enum M h w (st\<lparr>moves_made := insert cell (moves_made st)\<rparr>)"
| marked: "reachable enum M h w st \<Longrightarrow> truthful M st cell n \<Longrightarrow>
     engine_point enum M h w (mark_safe cell (st\<lparr>moves_made := insert cell (moves_made st)\<rparr>))"
| in_add_safes: "reachable enum M h w st \<Longrightarrow> truthful M st cell n \<Longrightarrow>
     st2 = mark_safe cell (st\<lparr>moves_made := insert cell (moves_made st)\<rparr>) \<Longrightarrow>
     find_neighbours st2 cell = Inr nb \<Longrightarrow>
     engine_point enum M h w
       (fold (add_safes_step (Sentence nb n))
          (take k (enum (fst (known_safes (Sentence nb n))))) st2)"
| in_add_mines: "reachable enum M h w st \<Longrightarrow> truthful M st cell n \<Longrightarrow>
     st2 = mark_safe cell (st\<lparr>moves_made := insert cell (moves_made st)\<rparr>) \<Longrightarrow>
     find_neighbours st2 cell = Inr nb \<Longrightarrow>
     engine_point enum M h w
       (fold (add_mines_step (Sentence nb n))
          (take k (enum (fst (known_mines (Sentence nb n)))))
          (add_safes enum (Sentence nb n) st2))"
| in_closure: "reachable enum M h w st \<Longrightarrow> truthful M st cell n \<Longrightarrow>
     add_knowledge_start enum cell n st = Inr st5 \<Longrightarrow>
     closure enum fuel 0 0 st5 = (b, st') \<Longrightarrow>
     engine_point enum M h w st'"

text \<open>How the knowledge list may change: sentences are updated in place by the
  propagation of a safe cell or of a mine, and a sentence is appended only when no equal
  sentence is in the list at that moment. Nothing is removed or reordered.\<close>

inductive grows :: "sentence list \<Rightarrow> sentence list \<Rightarrow> bool" where
  same: "grows K K"
| safe_marked: "grows K K' \<Longrightarrow> grows K (map (sentence_mark_safe c) K')"
| mine_marked: "grows K K' \<Longrightarrow> grows K (map (sentence_mark_mine c) K')"
| appended: "grows K K' \<Longrightarrow> s \<notin> set K' \<Longrightarrow> grows K (K' @ [s])"

text \<open>One engine state extends another: the board is the same, the three cell sets have
  only gained cells, and the knowledge list has grown as above.\<close>

definition extends :: "ai \<Rightarrow> ai \<Rightarrow> bool" where
  "extends st st' \<longleftrightarrow>
     height st' = height st \<and> width st' = width st \<and>
     moves_made st \<subseteq> moves_made st' \<and> safes st \<subseteq> safes st' \<and> mines st \<subseteq> mines st' \<and>
     grows (knowledge st) (knowledge st')"

subsection \<open>The successive values of the knowledge list\<close>

text \<open>One change of the knowledge list: nothing, the propagation of one safe cell or of one
  mine into every stored sentence, or the append of a sentence that is not equal to any
  sentence of the list.\<close>

definition knowledge_step :: "sentence list \<Rightarrow> sentence list \<Rightarrow> bool" where
  "knowledge_step K K' \<longleftrightarrow>
     K' = K \<or> (\<exists>c. K' = map (sentence_mark_safe c) K) \<or> (\<exists>c. K' = map (sentence_mark_mine c) K)
     \<or> (\<exists>s. s \<notin> set K \<and> K' = K @ [s])"

text \<open>A list of successive values, each one step from the one before.\<close>

fun steps_from :: "sentence list \<Rightarrow> sentence list list \<Rightarrow> bool" where
  "steps_from K [] = True"
| "steps_from K (K' # Ks) = (knowledge_step K K' \<and> steps_from K' Ks)"

text \<open>The values that \<^verbatim>\<open>self.knowledge\<close> takes, one after the other, while an operation
  runs: after every \<^verbatim>\<open>mark_safe\<close> or \<^verbatim>\<open>mark_mine\<close> and after every place of the source that
  can append. Each value is read off the model of the operation itself. For the nested
  loops the values are those of the steps taken within the fuel.\<close>

fun add_safes_loop_trace :: "sentence \<Rightarrow> cell list \<Rightarrow> ai \<Rightarrow> sentence list list" where
  "add_safes_loop_trace sentence [] st = []"
| "add_safes_loop_trace sentence (cll # cs) st =
     knowledge (mark_safe cll st) # knowledge (add_safes_step sentence cll st)
       # add_safes_loop_trace sentence cs (add_safes_step sentence cll st)"

definition add_safes_trace :: "set_order \<Rightarrow> sentence \<Rightarrow> ai \<Rightarrow> sentence list list" where
  "add_safes_trace enum sentence st =
     add_safes_loop_trace sentence (enum (fst (known_safes sentence))) st"

fun add_mines_loop_trace :: "sentence \<Rightarrow> cell list \<Rightarrow> ai \<Rightarrow> sentence list list" where
  "add_mines_loop_trace sentence [] st = []"
| "add_mines_loop_trace sentence (cll # cs) st =
     knowledge (mark_mine cll st) # knowledge (add_mines_step sentence cll st)
       # add_mines_loop_trace sentence cs (add_mines_step sentence cll st)"

definition add_mines_trace :: "set_order \<Rightarrow> sentence \<Rightarrow> ai \<Rightarrow> sentence list list" where
  "add_mines_trace enum sentence st =
     add_mines_loop_trace sentence (enum (fst (known_mines sentence))) st"

definition closure_body_trace :: "set_order \<Rightarrow> nat \<Rightarrow> nat \<Rightarrow> ai \<Rightarrow> sentence list list" where
  "closure_body_trace enum i j st =
     (let snt = knowledge st ! i; snt2 = knowledge st ! j
      in if snt \<noteq> snt2 \<and> cells snt \<subset> cells snt2
         then let new_sent = Sentence (cells snt2 - cells snt) (count snt2 - count snt);
                  st1 = add_safes enum new_sent st
              in add_safes_trace enum new_sent st @ add_mines_trace enum new_sent st1
                 @ [knowledge (closure_body enum i j st)]
         else [])"

fun closure_trace :: "set_order \<Rightarrow> nat \<Rightarrow> nat \<Rightarrow> nat \<Rightarrow> ai \<Rightarrow> sentence list list" where
  "closure_trace enum fuel i j st =
     (if length (knowledge st) \<le> i then []
      else case fuel of
             0 \<Rightarrow> []
           | Suc fuel' \<Rightarrow>
               if length (knowledge st) \<le> j then closure_trace enum fuel' (Suc i) 0 st
               else closure_body_trace enum i j st
                    @ closure_trace enum fuel' i (Suc j) (closure_body enum i j st))"

declare closure_trace.simps [simp del]

definition add_knowledge_trace :: "set_order \<Rightarrow> nat \<Rightarrow> cell \<Rightarrow> int \<Rightarrow> ai \<Rightarrow> sentence list list" where
  "add_knowledge_trace enum fuel cell n st =
     (let st1 = st\<lparr>moves_made := insert cell (moves_made st)\<rparr>;
          st2 = mark_safe cell st1
      in knowledge st2 #
         (case find_neighbours st2 cell of
            Inl e \<Rightarrow> []
          | Inr nb \<Rightarrow>
              let sent = Sentence nb n;
                  st3 = add_safes enum sent st2;
                  st4 = add_mines enum sent st3;
                  st5 = append_new sent st4
              in add_safes_trace enum sent st2 @ add_mines_trace enum sent st3
                 @ [knowledge st5] @ closure_trace enum fuel 0 0 st5))"

subsection \<open>Measures for the nested loops\<close>

text \<open>A sentence is undecided when its count is neither 0 nor the number of its cells:
  the test under which the loops store a derived sentence. The live cells of a list are the
  cells of its undecided sentences. The candidates are the sets of live cells that would
  make an undecided sentence, true for the layout, that is not in the list. The weight of a
  list and the position of the loops complete the measure that decreases with every step
  of the loops in a state that agrees with a layout.\<close>

definition nontrivial :: "sentence \<Rightarrow> bool" where
  "nontrivial s \<longleftrightarrow> count s \<noteq> 0 \<and> count s \<noteq> int (card (cells s))"

definition live_cells :: "sentence list \<Rightarrow> cell set" where
  "live_cells K = (\<Union>s \<in> {s \<in> set K. nontrivial s}. cells s)"

definition layout_sentence :: "cell set \<Rightarrow> cell set \<Rightarrow> sentence" where
  "layout_sentence M S = Sentence S (int (card (S \<inter> M)))"

definition candidates :: "cell set \<Rightarrow> sentence list \<Rightarrow> cell set set" where
  "candidates M K =
     {S. S \<subseteq> live_cells K \<and> nontrivial (layout_sentence M S) \<and> layout_sentence M S \<notin> set K}"

definition weight :: "nat \<Rightarrow> sentence list \<Rightarrow> nat" where
  "weight B K = sum_list (map (\<lambda>s. B ^ card (cells s)) K)"

definition position :: "nat \<Rightarrow> nat \<Rightarrow> sentence list \<Rightarrow> nat" where
  "position i j K = (length K - i) * (length K + 2) + (length K + 1 - j)"

definition closure_measure :: "cell set \<Rightarrow> nat \<Rightarrow> nat \<Rightarrow> nat \<Rightarrow> ai \<Rightarrow> nat \<times> nat \<times> nat \<times> nat" where
  "closure_measure M B i j st =
     (card (live_cells (knowledge st)), card (candidates M (knowledge st)),
      weight B (knowledge st), position i j (knowledge st))"

definition closure_order :: "((nat \<times> nat \<times> nat \<times> nat) \<times> (nat \<times> nat \<times> nat \<times> nat)) set" where
  "closure_order = less_than <*lex*> less_than <*lex*> less_than <*lex*> less_than"

definition bounded :: "nat \<Rightarrow> ai \<Rightarrow> bool" where
  "bounded B st \<longleftrightarrow> (\<forall>s \<in> set (knowledge st). card (cells s) + 1 < B)"

text \<open>The scenario of two stored sentences, at the positions \<open>p\<close> and \<open>q\<close> of the list,
  that differ by the one cell \<open>C\<close>: either the cell is already known safe, or the pair
  is still there.\<close>

definition pending :: "nat \<Rightarrow> nat \<Rightarrow> cell \<Rightarrow> ai \<Rightarrow> bool" where
  "pending p q C st \<longleftrightarrow>
     p < length (knowledge st) \<and> q < length (knowledge st) \<and>
     C \<in> cells (knowledge st ! p) \<and> cells (knowledge st ! q) = cells (knowledge st ! p) - {C}"

definition settled_or_pending :: "nat \<Rightarrow> nat \<Rightarrow> cell \<Rightarrow> ai \<Rightarrow> bool" where
  "settled_or_pending p q C st \<longleftrightarrow> C \<in> safes st \<or> pending p q C st"

subsection \<open>Example states\<close>

text \<open>States of small boards used in the examples below. On the board of one row and two
  columns: \<open>pair1\<close> and \<open>pair2\<close> follow the reports of \<open>(0, 0)\<close> and then of \<open>(0, 1)\<close>,
  each with count 0, on a board without mines; \<open>flagged\<close> follows the report of
  \<open>(0, 1)\<close> with count 1 when \<open>(0, 0)\<close> is a mine. On the board of one row and three
  columns with a mine at \<open>(0, 0)\<close>: \<open>strip1\<close> follows the report of \<open>(0, 1)\<close> with
  count 1, \<open>strip2\<close> the report of \<open>(0, 2)\<close> with count 0, and \<open>strip3\<close> the same
  report of \<open>(0, 2)\<close> made once more.\<close>

definition pair1 :: ai where
  "pair1 = \<lparr>height = 1, width = 2, moves_made = {(0, 0)}, mines = {},
             safes = {(0, 0), (0, 1)}, knowledge = [Sentence {(0, 1)} 0]\<rparr>"

definition pair2 :: ai where
  "pair2 = \<lparr>height = 1, width = 2, moves_made = {(0, 0), (0, 1)}, mines = {},
             safes = {(0, 0), (0, 1)}, knowledge = [Sentence {} 0, Sentence {} 0]\<rparr>"

definition flagged :: ai where
  "flagged = \<lparr>height = 1, width = 2, moves_made = {(0, 1)}, mines = {(0, 0)},
               safes = {(0, 1)}, knowledge = [Sentence {(0, 0)} 1]\<rparr>"

definition strip1 :: ai where
  "strip1 = \<lparr>height = 1, width = 3, moves_made = {(0, 1)}, mines = {},
              safes = {(0, 1)}, knowledge = [Sentence {(0, 0), (0, 2)} 1]\<rparr>"

definition strip2 :: ai where
  "strip2 = \<lparr>height = 1, width = 3, moves_made = {(0, 1), (0, 2)}, mines = {},
              safes = {(0, 1), (0, 2)},
              knowledge = [Sentence {(0, 0)} 1, Sentence {(0, 1)} 0]\<rparr>"

definition strip3 :: ai where
  "strip3 = \<lparr>height = 1, width = 3, moves_made = {(0, 1), (0, 2)}, mines = {(0, 0)},
              safes = {(0, 1), (0, 2)},
              knowledge = [Sentence {} 0, Sentence {} 0, Sentence {} 0]\<rparr>"


text \<open>On the board of two rows and two columns with a mine at \<open>(0, 0)\<close>: \<open>triple\<close>
  holds the sentences \<open>{(0, 0), (0, 1), (1, 0)} = 1\<close> and \<open>{(0, 0), (0, 1)} = 1\<close>, and
  \<open>triple_done\<close> follows the report of \<open>(1, 1)\<close> with count 1.\<close>

definition triple :: ai where
  "triple = \<lparr>height = 2, width = 2, moves_made = {}, mines = {}, safes = {},
              knowledge = [Sentence {(0, 0), (0, 1), (1, 0)} 1, Sentence {(0, 0), (0, 1)} 1]\<rparr>"

definition triple_done :: ai where
  "triple_done = \<lparr>height = 2, width = 2, moves_made = {(1, 1)}, mines = {},
              safes = {(1, 0), (1, 1)},
              knowledge = [Sentence {(0, 0), (0, 1)} 1, Sentence {(0, 0), (0, 1)} 1]\<rparr>"

section \<open>Properties of a sentence\<close>

text \<open>
  Claim C5. For every sentence \<open>S\<close>: when the count equals the number of cells,
  \<^verbatim>\<open>known_mines\<close> returns exactly the cells; when the count is 0, \<^verbatim>\<open>known_safes\<close> returns
  exactly the cells; a count different from the number of cells makes \<^verbatim>\<open>known_mines\<close>
  empty and a count different from 0 makes \<^verbatim>\<open>known_safes\<close> empty, so in every other case
  both are empty. Neither operation changes the sentence.
\<close>

theorem known_sets_correct:
  "(count S = int (card (cells S)) \<longrightarrow> fst (known_mines S) = cells S) \<and>
   (count S = 0 \<longrightarrow> fst (known_safes S) = cells S) \<and>
   (count S \<noteq> int (card (cells S)) \<longrightarrow> fst (known_mines S) = {}) \<and>
   (count S \<noteq> 0 \<longrightarrow> fst (known_safes S) = {}) \<and>
   snd (known_mines S) = S \<and> snd (known_safes S) = S"
  by (simp add: known_mines_def known_safes_def)

theorem known_sets_correct_witness:
  "fst (known_mines (Sentence {(0, 1), (1, 0)} 2)) = {(0, 1), (1, 0)} \<and>
   fst (known_safes (Sentence {(0, 1), (1, 0)} 0)) = {(0, 1), (1, 0)} \<and>
   fst (known_mines (Sentence {(0, 1), (1, 0)} 1)) = {} \<and>
   fst (known_safes (Sentence {(0, 1), (1, 0)} 1)) = {}"
  using known_sets_correct [of "Sentence {(0, 1), (1, 0)} 2"]
        known_sets_correct [of "Sentence {(0, 1), (1, 0)} 0"]
        known_sets_correct [of "Sentence {(0, 1), (1, 0)} 1"]
  by (simp add: Sentence_def)

text \<open>
  Claim C6. For every sentence and every cell \<open>c\<close>: when \<open>c\<close> is not a cell of the
  sentence, \<^verbatim>\<open>mark_mine\<close> and \<^verbatim>\<open>mark_safe\<close> leave the sentence as it is; when it is,
  \<^verbatim>\<open>mark_mine\<close> removes \<open>c\<close> and lowers the count by exactly 1, and \<^verbatim>\<open>mark_safe\<close>
  removes \<open>c\<close> and keeps the count.
\<close>

theorem sentence_mark_correct:
  "(c \<notin> cells S \<longrightarrow> sentence_mark_mine c S = S \<and> sentence_mark_safe c S = S) \<and>
   (c \<in> cells S \<longrightarrow>
      cells (sentence_mark_mine c S) = cells S - {c} \<and>
      c \<notin> cells (sentence_mark_mine c S) \<and>
      count (sentence_mark_mine c S) = count S - 1 \<and>
      cells (sentence_mark_safe c S) = cells S - {c} \<and>
      c \<notin> cells (sentence_mark_safe c S) \<and>
      count (sentence_mark_safe c S) = count S)"
  by (simp add: sentence_mark_mine_def sentence_mark_safe_def)

theorem sentence_mark_correct_witness:
  "sentence_mark_mine (5, 5) (Sentence {(0, 1), (1, 0)} 1) = Sentence {(0, 1), (1, 0)} 1 \<and>
   sentence_mark_safe (5, 5) (Sentence {(0, 1), (1, 0)} 1) = Sentence {(0, 1), (1, 0)} 1 \<and>
   cells (sentence_mark_mine (0, 1) (Sentence {(0, 1), (1, 0)} 1)) = {(1, 0)} \<and>
   count (sentence_mark_mine (0, 1) (Sentence {(0, 1), (1, 0)} 1)) = 0 \<and>
   cells (sentence_mark_safe (0, 1) (Sentence {(0, 1), (1, 0)} 1)) = {(1, 0)} \<and>
   count (sentence_mark_safe (0, 1) (Sentence {(0, 1), (1, 0)} 1)) = 1"
  using sentence_mark_correct [of "(5, 5)" "Sentence {(0, 1), (1, 0)} 1"]
        sentence_mark_correct [of "(0, 1)" "Sentence {(0, 1), (1, 0)} 1"]
  by (auto simp add: Sentence_def)

section \<open>The move queries\<close>

lemma find_Some_props: "find P xs = Some x \<Longrightarrow> x \<in> set xs \<and> P x"
  by (induction xs) (auto split: if_splits)

lemma valid_order_sorted: "valid_order sorted_list_of_set"
  by (simp add: valid_order_def)

text \<open>
  Claim C7. \<^verbatim>\<open>make_safe_move\<close> returns a cell of \<open>safes\<close> that was not a move made at
  the time of the call and adds exactly that cell to the moves made, whenever such a cell
  exists; it returns none, and changes nothing, only when every safe cell is a move made.
  In either case \<open>safes\<close> and \<open>mines\<close> are as before. (A Python set is finite; the
  iteration order is any valid one.)
\<close>

theorem make_safe_move_correct:
  assumes "valid_order enum" and "finite (safes st)"
  shows "case make_safe_move enum st of
           (Some c, st') \<Rightarrow> c \<in> safes st \<and> c \<notin> moves_made st \<and>
              st' = st\<lparr>moves_made := insert c (moves_made st)\<rparr> \<and>
              safes st' = safes st \<and> mines st' = mines st
         | (None, st') \<Rightarrow> safes st \<subseteq> moves_made st \<and> st' = st"
proof (cases "find (\<lambda>cll. cll \<notin> moves_made st) (enum (safes st))")
  case None
  then have "\<forall>c \<in> set (enum (safes st)). c \<in> moves_made st"
    by (auto simp: find_None_iff)
  moreover have "set (enum (safes st)) = safes st"
    using assms by (simp add: valid_order_def)
  ultimately show ?thesis using None by (auto simp: make_safe_move_def)
next
  case (Some c)
  then have "c \<in> set (enum (safes st)) \<and> c \<notin> moves_made st"
    by (rule find_Some_props)
  moreover have "set (enum (safes st)) = safes st"
    using assms by (simp add: valid_order_def)
  ultimately show ?thesis using Some by (simp add: make_safe_move_def)
qed

theorem make_safe_move_correct_witness:
  "valid_order sorted_list_of_set \<and>
   finite (safes ((MinesweeperAI 2 2)\<lparr>safes := {(0, 0), (0, 1)}, moves_made := {(0, 0)}\<rparr>)) \<and>
   make_safe_move sorted_list_of_set ((MinesweeperAI 2 2)\<lparr>safes := {(0, 0), (0, 1)}, moves_made := {(0, 0)}\<rparr>)
     = (Some (0, 1), (MinesweeperAI 2 2)\<lparr>safes := {(0, 0), (0, 1)}, moves_made := {(0, 0), (0, 1)}\<rparr>)"
  using make_safe_move_correct [OF valid_order_sorted,
     of "(MinesweeperAI 2 2)\<lparr>safes := {(0, 0), (0, 1)}, moves_made := {(0, 0)}\<rparr>"]
  by (auto simp: valid_order_sorted MinesweeperAI_def make_safe_move_def split: option.splits)

lemma randint_range: "randint rnd k a b = Inr r \<Longrightarrow> a \<le> r \<and> r \<le> b"
proof -
  assume h: "randint rnd k a b = Inr r"
  then have ab: "a \<le> b" by (auto simp: randint_def split: if_splits)
  from h have r: "r = a + int (rnd k mod nat (b - a + 1))"
    by (auto simp: randint_def split: if_splits)
  from ab have "0 < nat (b - a + 1)" by simp
  then have "rnd k mod nat (b - a + 1) < nat (b - a + 1)" by (rule mod_less_divisor)
  then have "int (rnd k mod nat (b - a + 1)) < b - a + 1" using ab by linarith
  with r show ?thesis by simp
qed

lemma make_random_move_step:
  assumes IH: "\<And>k st' y. mrm rnd k st' = Some y \<Longrightarrow> P st' y"
    and ret: "\<And>r c. 0 \<le> r \<and> r < height st \<and> 0 \<le> c \<and> c < width st \<and>
                (r, c) \<notin> moves_made st \<and> (r, c) \<notin> mines st \<Longrightarrow> P st (Inr (r, c), st)"
    and err: "\<And>e. P st (Inl e, st)"
    and eq: "(case randint rnd k 0 (height st - 1) of
        Inl e \<Rightarrow> Some (Inl e, st)
      | Inr r \<Rightarrow>
          (case randint rnd (k + 1) 0 (width st - 1) of
             Inl e \<Rightarrow> Some (Inl e, st)
           | Inr c \<Rightarrow>
               if (r, c) \<notin> moves_made st
               then (if (r, c) \<notin> mines st then Some (Inr (r, c), st)
                     else mrm rnd (k + 2) st)
               else mrm rnd (k + 2) st)) = Some y"
  shows "P st y"
proof (cases "randint rnd k 0 (height st - 1)")
  case (Inl e)
  with eq err show ?thesis by auto
next
  case row: (Inr r)
  show ?thesis
  proof (cases "randint rnd (k + 1) 0 (width st - 1)")
    case (Inl e)
    with row eq err show ?thesis by auto
  next
    case col: (Inr c)
    from randint_range [OF row] randint_range [OF col]
    have rng: "0 \<le> r \<and> r < height st \<and> 0 \<le> c \<and> c < width st" by simp
    show ?thesis
    proof (cases "(r, c) \<notin> moves_made st \<and> (r, c) \<notin> mines st")
      case True
      then have "y = (Inr (r, c), st)" using eq row col by simp
      with ret [of r c] rng True show ?thesis by simp
    next
      case False
      then have "mrm rnd (k + 2) st = Some y"
        using eq row col by (simp split: if_splits)
      then show ?thesis by (rule IH)
    qed
  qed
qed

text \<open>
  Claim C8. Whenever \<^verbatim>\<open>make_random_move\<close> returns a cell, the cell is in bounds, is not a
  move made and is not a known mine, and the engine state is the one before the call: the
  cell is not recorded as a move, and \<open>safes\<close> and \<open>mines\<close> are unchanged.
\<close>

theorem make_random_move_correct:
  assumes "make_random_move rnd k st = Some (Inr c, st')"
  shows "0 \<le> fst c \<and> fst c < height st \<and> 0 \<le> snd c \<and> snd c < width st \<and>
         c \<notin> moves_made st \<and> c \<notin> mines st \<and> st' = st"
proof -
  define P where "P = (\<lambda>(rnd::nat \<Rightarrow> nat) (k::nat) (st::ai) (y::(error + cell) \<times> ai).
          \<forall>c st'. y = (Inr c, st') \<longrightarrow>
          0 \<le> fst c \<and> fst c < height st \<and> 0 \<le> snd c \<and> snd c < width st \<and>
          c \<notin> moves_made st \<and> c \<notin> mines st \<and> st' = st)"
  have "P rnd k st (Inr c, st')"
  proof (rule make_random_move.raw_induct [where P = P, OF _ assms])
    fix mrm rnd k st y
    assume IH: "\<And>rnd k st y. mrm rnd k st = Some y \<Longrightarrow> P rnd k st y"
      and eq: "(case randint rnd k 0 (height st - 1) of
        Inl e \<Rightarrow> Some (Inl e, st)
      | Inr r \<Rightarrow>
          (case randint rnd (k + 1) 0 (width st - 1) of
             Inl e \<Rightarrow> Some (Inl e, st)
           | Inr c \<Rightarrow>
               if (r, c) \<notin> moves_made st
               then (if (r, c) \<notin> mines st then Some (Inr (r, c), st)
                     else mrm rnd (k + 2) st)
               else mrm rnd (k + 2) st)) = Some y"
    show "P rnd k st y"
      by (rule make_random_move_step [where mrm = mrm and rnd = rnd and k = k and y = y
            and P = "P rnd k", OF _ _ _ eq]) (use IH in \<open>auto simp: P_def\<close>)
  qed
  then show ?thesis unfolding P_def by blast
qed

lemma make_random_move_example: "make_random_move (\<lambda>k. k) 1 ((MinesweeperAI 2 2)\<lparr>moves_made := {(0, 0)}, mines := {(0, 1)}\<rparr>)
     = Some (Inr (1, 0), (MinesweeperAI 2 2)\<lparr>moves_made := {(0, 0)}, mines := {(0, 1)}\<rparr>)"
  by (subst make_random_move.simps) (simp add: randint_def MinesweeperAI_def)

theorem make_random_move_correct_witness:
  "make_random_move (\<lambda>k. k) 1 ((MinesweeperAI 2 2)\<lparr>moves_made := {(0, 0)}, mines := {(0, 1)}\<rparr>)
     = Some (Inr (1, 0), (MinesweeperAI 2 2)\<lparr>moves_made := {(0, 0)}, mines := {(0, 1)}\<rparr>) \<and>
   (1, 0) \<notin> moves_made ((MinesweeperAI 2 2)\<lparr>moves_made := {(0, 0)}, mines := {(0, 1)}\<rparr>) \<and>
   (1, 0) \<notin> mines ((MinesweeperAI 2 2)\<lparr>moves_made := {(0, 0)}, mines := {(0, 1)}\<rparr>)"
  using make_random_move_correct [OF make_random_move_example] make_random_move_example by simp

section \<open>The engine agrees with the mine layout\<close>

subsection \<open>Unfolding the loops\<close>

lemma closure_done: "length (knowledge st) \<le> i \<Longrightarrow> closure enum fuel i j st = (True, st)"
  by (simp add: closure.simps)

lemma closure_no_fuel: "i < length (knowledge st) \<Longrightarrow> closure enum 0 i j st = (False, st)"
  by (simp add: closure.simps)

lemma closure_next_row:
  "i < length (knowledge st) \<Longrightarrow> length (knowledge st) \<le> j \<Longrightarrow>
   closure enum (Suc fuel) i j st = closure enum fuel (Suc i) 0 st"
  by (simp add: closure.simps)

lemma closure_next_col:
  "i < length (knowledge st) \<Longrightarrow> j < length (knowledge st) \<Longrightarrow>
   closure enum (Suc fuel) i j st = closure enum fuel i (Suc j) (closure_body enum i j st)"
  by (simp add: closure.simps)

text \<open>A property kept by the loop body is kept by the loops, whatever the fuel.\<close>

lemma closure_invariant:
  assumes body: "\<And>i j st. P st \<Longrightarrow> i < length (knowledge st) \<Longrightarrow> j < length (knowledge st) \<Longrightarrow>
                    P (closure_body enum i j st)"
  shows "P st \<Longrightarrow> P (snd (closure enum fuel i j st))"
proof (induction fuel arbitrary: i j st)
  case 0
  then show ?case by (cases "i < length (knowledge st)") (simp_all add: closure_done closure_no_fuel)
next
  case (Suc fuel)
  show ?case
  proof (cases "i < length (knowledge st)")
    case False
    with Suc.prems show ?thesis by (simp add: closure_done)
  next
    case i: True
    show ?thesis
    proof (cases "j < length (knowledge st)")
      case False
      with i Suc show ?thesis by (simp add: closure_next_row)
    next
      case True
      with i Suc body show ?thesis by (simp add: closure_next_col)
    qed
  qed
qed

subsection \<open>The fields after each operation\<close>

lemma mark_safe_fields [simp]:
  "height (mark_safe c st) = height st" "width (mark_safe c st) = width st"
  "moves_made (mark_safe c st) = moves_made st" "mines (mark_safe c st) = mines st"
  "safes (mark_safe c st) = insert c (safes st)"
  "knowledge (mark_safe c st) = map (sentence_mark_safe c) (knowledge st)"
  by (simp_all add: mark_safe_def)

lemma mark_mine_fields [simp]:
  "height (mark_mine c st) = height st" "width (mark_mine c st) = width st"
  "moves_made (mark_mine c st) = moves_made st" "safes (mark_mine c st) = safes st"
  "mines (mark_mine c st) = insert c (mines st)"
  "knowledge (mark_mine c st) = map (sentence_mark_mine c) (knowledge st)"
  by (simp_all add: mark_mine_def)

lemma append_new_fields [simp]:
  "height (append_new s st) = height st" "width (append_new s st) = width st"
  "moves_made (append_new s st) = moves_made st" "safes (append_new s st) = safes st"
  "mines (append_new s st) = mines st"
  "knowledge (append_new s st) = (if s \<in> set (knowledge st) then knowledge st else knowledge st @ [s])"
  by (simp_all add: append_new_def)

lemma find_neighbours_board:
  "height st' = height st \<Longrightarrow> width st' = width st \<Longrightarrow> find_neighbours st' c = find_neighbours st c"
  by (simp add: find_neighbours_def)

lemma find_neighbours_finite: "find_neighbours st c = Inr nb \<Longrightarrow> finite nb"
  by (auto simp: find_neighbours_def Let_def split: if_splits)

lemma valid_order_set: "valid_order enum \<Longrightarrow> finite S \<Longrightarrow> set (enum S) = S"
  by (simp add: valid_order_def)

subsection \<open>Soundness\<close>

lemma int_card_remove:
  assumes "finite A" "c \<in> A" shows "int (card (A - {c})) = int (card A) - 1"
proof -
  have "0 < card A" using assms by (auto simp: card_gt_0_iff)
  then show ?thesis using assms by (simp add: card_Diff_singleton of_nat_diff Suc_leI)
qed

lemma sentence_true_mark_safe:
  "sentence_true M s \<Longrightarrow> c \<notin> M \<Longrightarrow> sentence_true M (sentence_mark_safe c s)"
  by (auto simp: sentence_true_def sentence_mark_safe_def intro!: arg_cong [where f = card])

lemma sentence_true_mark_mine:
  assumes "sentence_true M s" "c \<in> M" shows "sentence_true M (sentence_mark_mine c s)"
proof (cases "c \<in> cells s")
  case False then show ?thesis using assms by (simp add: sentence_mark_mine_def)
next
  case True
  have fin: "finite (cells s \<inter> M)" using assms by (simp add: sentence_true_def)
  have "(cells s - {c}) \<inter> M = (cells s \<inter> M) - {c}" by auto
  moreover have "c \<in> cells s \<inter> M" using True assms by simp
  ultimately have "int (card ((cells s - {c}) \<inter> M)) = int (card (cells s \<inter> M)) - 1"
    using int_card_remove [OF fin] by simp
  then show ?thesis using True assms by (simp add: sentence_true_def sentence_mark_mine_def)
qed

lemma sound_mark_safe: "sound M st \<Longrightarrow> c \<notin> M \<Longrightarrow> sound M (mark_safe c st)"
  by (auto simp: sound_def sentence_true_mark_safe)

lemma sound_mark_mine: "sound M st \<Longrightarrow> c \<in> M \<Longrightarrow> sound M (mark_mine c st)"
  by (auto simp: sound_def sentence_true_mark_mine)

lemma sound_append_new: "sound M st \<Longrightarrow> sentence_true M s \<Longrightarrow> sound M (append_new s st)"
  by (auto simp: sound_def)

lemma sound_add_safes_step:
  assumes "sound M st" "sentence_true M sentence" "count sentence = 0" "cll \<in> cells sentence"
  shows "sound M (add_safes_step sentence cll st)"
proof -
  have "finite (cells sentence \<inter> M)" using assms(2) by (simp add: sentence_true_def)
  then have empty: "cells sentence \<inter> M = {}" using assms(2,3) by (simp add: sentence_true_def)
  then have c: "cll \<notin> M" using assms(4) by auto
  have "(cells sentence - {cll}) \<inter> M = {}" using empty by auto
  then have r: "sentence_true M (Sentence (cells sentence - {cll}) (count sentence))"
    using assms(2,3) by (simp add: sentence_true_def Sentence_def)
  have s2: "sound M ((mark_safe cll st)\<lparr>safes := insert cll (safes (mark_safe cll st))\<rparr>)"
    using sound_mark_safe [OF assms(1) c] c by (simp add: sound_def)
  show ?thesis using s2 r by (simp add: add_safes_step_def Let_def sound_append_new)
qed

lemma sound_add_safes_loop:
  assumes "sentence_true M sentence" "count sentence = 0" "set cs \<subseteq> cells sentence"
  shows "sound M st \<Longrightarrow> sound M (fold (add_safes_step sentence) cs st)"
  using assms(3)
proof (induction cs arbitrary: st)
  case Nil then show ?case by simp
next
  case (Cons c cs)
  then show ?case using sound_add_safes_step [OF _ assms(1,2)] by simp
qed

lemma sound_add_mines_step:
  assumes "sound M st" "sentence_true M sentence" "count sentence = int (card (cells sentence))"
    "cll \<in> cells sentence"
  shows "sound M (add_mines_step sentence cll st)"
proof -
  have fin: "finite (cells sentence)" using assms(2) by (simp add: sentence_true_def)
  have "card (cells sentence \<inter> M) = card (cells sentence)"
    using assms(2,3) by (simp add: sentence_true_def)
  then have sub: "cells sentence \<inter> M = cells sentence"
    using fin by (intro card_subset_eq) auto
  then have c: "cll \<in> M" using assms(4) by auto
  have "(cells sentence - {cll}) \<inter> M = cells sentence - {cll}" using sub by auto
  moreover have "int (card (cells sentence - {cll})) = int (card (cells sentence)) - 1"
    using fin assms(4) by (rule int_card_remove)
  ultimately have r: "sentence_true M (Sentence (cells sentence - {cll}) (count sentence - 1))"
    using fin assms(3) by (simp add: sentence_true_def Sentence_def)
  have s2: "sound M ((mark_mine cll st)\<lparr>mines := insert cll (mines (mark_mine cll st))\<rparr>)"
    using sound_mark_mine [OF assms(1) c] c by (simp add: sound_def)
  show ?thesis using s2 r by (simp add: add_mines_step_def Let_def sound_append_new)
qed

lemma sound_add_mines_loop:
  assumes "sentence_true M sentence" "count sentence = int (card (cells sentence))"
    "set cs \<subseteq> cells sentence"
  shows "sound M st \<Longrightarrow> sound M (fold (add_mines_step sentence) cs st)"
  using assms(3)
proof (induction cs arbitrary: st)
  case Nil then show ?case by simp
next
  case (Cons c cs)
  then show ?case using sound_add_mines_step [OF _ assms(1,2)] by simp
qed

lemma known_safes_cases:
  "fst (known_safes s) = {} \<or> (count s = 0 \<and> fst (known_safes s) = cells s)"
  by (simp add: known_safes_def)

lemma known_mines_cases:
  "fst (known_mines s) = {} \<or> (count s = int (card (cells s)) \<and> fst (known_mines s) = cells s)"
  by (simp add: known_mines_def)

lemma sound_add_safes_prefix:
  assumes v: "valid_order enum" and t: "sentence_true M sentence" and s: "sound M st"
  shows "sound M (fold (add_safes_step sentence) (take k (enum (fst (known_safes sentence)))) st)"
proof -
  have fin: "finite (cells sentence)" using t by (simp add: sentence_true_def)
  from known_safes_cases [of sentence] show ?thesis
  proof
    assume "fst (known_safes sentence) = {}"
    then have "enum (fst (known_safes sentence)) = []"
      using valid_order_set [OF v, of "{}"] by simp
    then show ?thesis using s by simp
  next
    assume a: "count sentence = 0 \<and> fst (known_safes sentence) = cells sentence"
    then have "set (take k (enum (fst (known_safes sentence)))) \<subseteq> cells sentence"
      using valid_order_set [OF v fin] set_take_subset [of k "enum (cells sentence)"] by simp
    then show ?thesis using sound_add_safes_loop [OF t _ _ s] a by blast
  qed
qed

lemma sound_add_mines_prefix:
  assumes v: "valid_order enum" and t: "sentence_true M sentence" and s: "sound M st"
  shows "sound M (fold (add_mines_step sentence) (take k (enum (fst (known_mines sentence)))) st)"
proof -
  have fin: "finite (cells sentence)" using t by (simp add: sentence_true_def)
  from known_mines_cases [of sentence] show ?thesis
  proof
    assume "fst (known_mines sentence) = {}"
    then have "enum (fst (known_mines sentence)) = []"
      using valid_order_set [OF v, of "{}"] by simp
    then show ?thesis using s by simp
  next
    assume a: "count sentence = int (card (cells sentence)) \<and> fst (known_mines sentence) = cells sentence"
    then have "set (take k (enum (fst (known_mines sentence)))) \<subseteq> cells sentence"
      using valid_order_set [OF v fin] set_take_subset [of k "enum (cells sentence)"] by simp
    then show ?thesis using sound_add_mines_loop [OF t _ _ s] a by blast
  qed
qed

lemma sound_add_safes:
  "valid_order enum \<Longrightarrow> sentence_true M sentence \<Longrightarrow> sound M st \<Longrightarrow> sound M (add_safes enum sentence st)"
  using sound_add_safes_prefix [of enum M sentence st "length (enum (fst (known_safes sentence)))"]
  by (simp add: add_safes_def)

lemma sound_add_mines:
  "valid_order enum \<Longrightarrow> sentence_true M sentence \<Longrightarrow> sound M st \<Longrightarrow> sound M (add_mines enum sentence st)"
  using sound_add_mines_prefix [of enum M sentence st "length (enum (fst (known_mines sentence)))"]
  by (simp add: add_mines_def)

lemma sentence_true_difference:
  assumes a: "sentence_true M a" and b: "sentence_true M b" and sub: "cells a \<subseteq> cells b"
  shows "sentence_true M (Sentence (cells b - cells a) (count b - count a))"
proof -
  have fb: "finite (cells b)" using b by (simp add: sentence_true_def)
  have "(cells b - cells a) \<inter> M = (cells b \<inter> M) - (cells a \<inter> M)" by auto
  moreover have "cells a \<inter> M \<subseteq> cells b \<inter> M" using sub by auto
  ultimately have "card ((cells b - cells a) \<inter> M) = card (cells b \<inter> M) - card (cells a \<inter> M)"
    using fb by (simp add: card_Diff_subset finite_subset)
  moreover have "card (cells a \<inter> M) \<le> card (cells b \<inter> M)"
    using sub fb by (intro card_mono) auto
  ultimately show ?thesis using a b fb
    by (simp add: sentence_true_def Sentence_def of_nat_diff)
qed

lemma sound_closure_body:
  assumes v: "valid_order enum" and s: "sound M st"
    and i: "i < length (knowledge st)" and j: "j < length (knowledge st)"
  shows "sound M (closure_body enum i j st)"
proof -
  let ?a = "knowledge st ! i" and ?b = "knowledge st ! j"
  let ?d = "Sentence (cells ?b - cells ?a) (count ?b - count ?a)"
  have a: "sentence_true M ?a" and b: "sentence_true M ?b"
    using s i j by (simp_all add: sound_def)
  show ?thesis
  proof (cases "?a \<noteq> ?b \<and> cells ?a \<subset> cells ?b")
    case False
    then show ?thesis using s by (auto simp: closure_body_def Let_def)
  next
    case True
    then have d: "sentence_true M ?d" using sentence_true_difference [OF a b] by auto
    have s2: "sound M (add_mines enum ?d (add_safes enum ?d st))"
      by (intro sound_add_mines sound_add_safes v d s)
    then have "sound M ((add_mines enum ?d (add_safes enum ?d st))
                 \<lparr>knowledge := knowledge (add_mines enum ?d (add_safes enum ?d st)) @ [?d]\<rparr>)"
      using d by (auto simp: sound_def)
    with s2 True show ?thesis by (simp add: closure_body_def Let_def)
  qed
qed

lemma sound_closure:
  "valid_order enum \<Longrightarrow> sound M st \<Longrightarrow> sound M (snd (closure enum fuel i j st))"
  by (rule closure_invariant [where P = "sound M"]) (auto intro: sound_closure_body)

lemma sound_recorded: "sound M st \<Longrightarrow> sound M (st\<lparr>moves_made := X\<rparr>)"
  by (simp add: sound_def)

lemma truthful_sentence:
  assumes "truthful M st cell n" "find_neighbours st' cell = Inr nb"
    "height st' = height st" "width st' = width st"
  shows "sentence_true M (Sentence nb n)"
proof -
  have "find_neighbours st cell = Inr nb" using assms(2-4) find_neighbours_board by metis
  then show ?thesis using assms(1) find_neighbours_finite [OF assms(2)]
    by (simp add: truthful_def sentence_true_def Sentence_def)
qed

lemma sound_add_knowledge_start:
  assumes v: "valid_order enum" and s: "sound M st" and t: "truthful M st cell n"
  shows "sound M (result_state (add_knowledge_start enum cell n st))"
proof -
  let ?st2 = "mark_safe cell (st\<lparr>moves_made := insert cell (moves_made st)\<rparr>)"
  have c: "cell \<notin> M" using t by (simp add: truthful_def)
  have s2: "sound M ?st2" by (intro sound_mark_safe sound_recorded s c)
  show ?thesis
  proof (cases "find_neighbours ?st2 cell")
    case (Inl e)
    then show ?thesis using s2 by (simp add: add_knowledge_start_def Let_def result_state_def)
  next
    case (Inr nb)
    have tr: "sentence_true M (Sentence nb n)"
      by (rule truthful_sentence [OF t Inr]) simp_all
    have "sound M (append_new (Sentence nb n)
             (add_mines enum (Sentence nb n) (add_safes enum (Sentence nb n) ?st2)))"
      by (intro sound_append_new sound_add_mines sound_add_safes v tr s2)
    then show ?thesis using Inr by (simp add: add_knowledge_start_def Let_def result_state_def)
  qed
qed

lemma sound_add_knowledge:
  assumes v: "valid_order enum" and s: "sound M st" and t: "truthful M st cell n"
    and r: "add_knowledge enum fuel cell n st = Some r"
  shows "sound M (result_state r)"
proof (cases "add_knowledge_start enum cell n st")
  case (Inl e)
  then have "r = Inl e" using r by (simp add: add_knowledge_def)
  then show ?thesis using sound_add_knowledge_start [OF v s t] Inl by simp
next
  case (Inr st5)
  then have s5: "sound M st5" using sound_add_knowledge_start [OF v s t] by (simp add: result_state_def)
  obtain b st' where c: "closure enum fuel 0 0 st5 = (b, st')" by (cases "closure enum fuel 0 0 st5")
  then have "r = Inr st'" using r Inr by (auto simp: add_knowledge_def split: if_splits bool.splits)
  moreover have "sound M st'" using sound_closure [OF v s5, of fuel 0 0] c by simp
  ultimately show ?thesis by (simp add: result_state_def)
qed

lemma sound_init: "sound M (MinesweeperAI h w)"
  by (simp add: sound_def MinesweeperAI_def)

lemma sound_make_safe_move: "sound M st \<Longrightarrow> sound M (snd (make_safe_move enum st))"
  by (auto simp: make_safe_move_def sound_def split: option.splits)

lemma reachable_sound:
  "reachable enum M h w st \<Longrightarrow> valid_order enum \<Longrightarrow> sound M st"
  by (induction rule: reachable.induct)
     (auto intro: sound_init sound_add_knowledge sound_make_safe_move)

lemma engine_point_sound:
  assumes "engine_point enum M h w st" and v: "valid_order enum"
  shows "sound M st"
  using assms(1)
proof (cases rule: engine_point.cases)
  case between
  then show ?thesis using reachable_sound v by blast
next
  case (recorded st0 cell n)
  then show ?thesis using reachable_sound [OF _ v] sound_recorded by blast
next
  case (marked st0 cell n)
  then have "cell \<notin> M" by (simp add: truthful_def)
  then show ?thesis using marked reachable_sound [OF _ v] by (auto intro!: sound_mark_safe sound_recorded)
next
  case (in_add_safes st0 cell n st2 nb k)
  have c: "cell \<notin> M" using in_add_safes by (simp add: truthful_def)
  have s2: "sound M st2" unfolding in_add_safes(4)
    using reachable_sound [OF in_add_safes(2) v] c by (intro sound_mark_safe sound_recorded)
  have tr: "sentence_true M (Sentence nb n)"
    by (rule truthful_sentence [OF in_add_safes(3,5)]) (simp_all add: in_add_safes(4))
  show ?thesis unfolding in_add_safes(1) by (rule sound_add_safes_prefix [OF v tr s2])
next
  case (in_add_mines st0 cell n st2 nb k)
  have c: "cell \<notin> M" using in_add_mines by (simp add: truthful_def)
  have s2: "sound M st2" unfolding in_add_mines(4)
    using reachable_sound [OF in_add_mines(2) v] c by (intro sound_mark_safe sound_recorded)
  have tr: "sentence_true M (Sentence nb n)"
    by (rule truthful_sentence [OF in_add_mines(3,5)]) (simp_all add: in_add_mines(4))
  show ?thesis unfolding in_add_mines(1)
    by (intro sound_add_mines_prefix sound_add_safes v tr s2)
next
  case (in_closure st0 cell n st5 fuel b)
  have "sound M (result_state (add_knowledge_start enum cell n st0))"
    by (rule sound_add_knowledge_start [OF v reachable_sound [OF in_closure(1) v] in_closure(2)])
  then have "sound M st5" using in_closure(3) by (simp add: result_state_def)
  then show ?thesis using sound_closure [OF v, of M st5 fuel 0 0] in_closure(4) by simp
qed

section \<open>The engine only gains knowledge\<close>

subsection \<open>Growth of the knowledge list\<close>

lemma grows_trans: "grows K' K'' \<Longrightarrow> grows K K' \<Longrightarrow> grows K K''"
  by (induction rule: grows.induct) (auto intro: grows.intros)

lemma grows_length: "grows K K' \<Longrightarrow> length K \<le> length K'"
  by (induction rule: grows.induct) auto

lemma sentence_mark_safe_cells: "cells (sentence_mark_safe c s) = cells s - {c}"
  by (auto simp: sentence_mark_safe_def)

lemma sentence_mark_mine_cells: "cells (sentence_mark_mine c s) = cells s - {c}"
  by (auto simp: sentence_mark_mine_def)

lemma grows_shrinks:
  "grows K K' \<Longrightarrow> p < length K \<Longrightarrow> cells (K' ! p) \<subseteq> cells (K ! p)"
proof (induction rule: grows.induct)
  case (same K)
  then show ?case by simp
next
  case (safe_marked K K' c)
  then have "p < length K'" using grows_length [of K K'] by simp
  then show ?case using safe_marked by (auto simp: sentence_mark_safe_cells)
next
  case (mine_marked K K' c)
  then have "p < length K'" using grows_length [of K K'] by simp
  then show ?case using mine_marked by (auto simp: sentence_mark_mine_cells)
next
  case (appended K K' s)
  then have "p < length K'" using grows_length [of K K'] by simp
  then show ?case using appended by (simp add: nth_append)
qed

lemma extends_refl: "extends st st"
  by (simp add: extends_def grows.same)

lemma extends_trans:
  assumes "extends st st'" "extends st' st''" shows "extends st st''"
proof -
  have "grows (knowledge st') (knowledge st'')" "grows (knowledge st) (knowledge st')"
    using assms by (simp_all add: extends_def)
  then have "grows (knowledge st) (knowledge st'')" by (rule grows_trans)
  then show ?thesis using assms unfolding extends_def by auto
qed

lemma extends_mark_safe: "extends st (mark_safe c st)"
  by (auto simp: extends_def intro: grows.intros)

lemma extends_mark_mine: "extends st (mark_mine c st)"
  by (auto simp: extends_def intro: grows.intros)

lemma extends_append_new: "extends st (append_new s st)"
  by (auto simp: extends_def intro: grows.intros)

lemma extends_add_safes_step: "extends st (add_safes_step sentence cll st)"
proof -
  let ?st2 = "(mark_safe cll st)\<lparr>safes := insert cll (safes (mark_safe cll st))\<rparr>"
  have "extends st ?st2" by (auto simp: extends_def intro: grows.intros)
  moreover have "extends ?st2 (append_new (Sentence (cells sentence - {cll}) (count sentence)) ?st2)"
    by (rule extends_append_new)
  ultimately have "extends st (append_new (Sentence (cells sentence - {cll}) (count sentence)) ?st2)"
    by (rule extends_trans)
  with \<open>extends st ?st2\<close> show ?thesis
    unfolding add_safes_step_def Let_def by (cases "1 < card (cells sentence)") simp_all
qed

lemma extends_add_mines_step: "extends st (add_mines_step sentence cll st)"
proof -
  let ?st2 = "(mark_mine cll st)\<lparr>mines := insert cll (mines (mark_mine cll st))\<rparr>"
  have "extends st ?st2" by (auto simp: extends_def intro: grows.intros)
  moreover have "extends ?st2 (append_new (Sentence (cells sentence - {cll}) (count sentence - 1)) ?st2)"
    by (rule extends_append_new)
  ultimately have "extends st (append_new (Sentence (cells sentence - {cll}) (count sentence - 1)) ?st2)"
    by (rule extends_trans)
  with \<open>extends st ?st2\<close> show ?thesis
    unfolding add_mines_step_def Let_def by (cases "1 < card (cells sentence)") simp_all
qed

lemma extends_fold:
  assumes "\<And>c st. extends st (f c st)"
  shows "extends st (fold f cs st)"
proof (induction cs arbitrary: st)
  case Nil show ?case by (simp add: extends_refl)
next
  case (Cons c cs)
  show ?case using extends_trans [OF assms [of st c] Cons [of "f c st"]] by simp
qed

lemma extends_add_safes: "extends st (add_safes enum sentence st)"
  unfolding add_safes_def by (rule extends_fold) (rule extends_add_safes_step)

lemma extends_add_mines: "extends st (add_mines enum sentence st)"
  unfolding add_mines_def by (rule extends_fold) (rule extends_add_mines_step)

lemma closure_body_cases:
  obtains (skip) "closure_body enum i j st = st"
  | (consumed) d where "closure_body enum i j st = add_mines enum d (add_safes enum d st)"
  | (stored) d where
      "closure_body enum i j st =
         (add_mines enum d (add_safes enum d st))
           \<lparr>knowledge := knowledge (add_mines enum d (add_safes enum d st)) @ [d]\<rparr>"
      "d \<notin> set (knowledge (add_mines enum d (add_safes enum d st)))"
proof -
  let ?d = "Sentence (cells (knowledge st ! j) - cells (knowledge st ! i))
              (count (knowledge st ! j) - count (knowledge st ! i))"
  let ?st2 = "add_mines enum ?d (add_safes enum ?d st)"
  show ?thesis
  proof (cases "knowledge st ! i \<noteq> knowledge st ! j \<and> cells (knowledge st ! i) \<subset> cells (knowledge st ! j)")
    case False
    then have "closure_body enum i j st = st" unfolding closure_body_def Let_def by auto
    then show ?thesis by (rule skip)
  next
    case t: True
    show ?thesis
    proof (cases "count ?d \<noteq> 0 \<and> count ?d \<noteq> int (card (cells ?d)) \<and> ?d \<notin> set (knowledge ?st2)")
      case False
      then have "closure_body enum i j st = ?st2" using t unfolding closure_body_def Let_def by simp
      then show ?thesis by (rule consumed)
    next
      case True
      then have "closure_body enum i j st = ?st2\<lparr>knowledge := knowledge ?st2 @ [?d]\<rparr>"
        using t unfolding closure_body_def Let_def by simp
      moreover have "?d \<notin> set (knowledge ?st2)" using True by simp
      ultimately show ?thesis by (rule stored)
    qed
  qed
qed

lemma extends_closure_body: "extends st (closure_body enum i j st)"
proof (cases rule: closure_body_cases [of enum i j st])
  case skip
  then show ?thesis by (simp add: extends_refl)
next
  case (consumed d)
  show ?thesis unfolding consumed
    by (rule extends_trans [OF extends_add_safes extends_add_mines])
next
  case (stored d)
  let ?st2 = "add_mines enum d (add_safes enum d st)"
  have e2: "extends st ?st2"
    by (rule extends_trans [OF extends_add_safes extends_add_mines])
  have "grows (knowledge ?st2) (knowledge ?st2 @ [d])"
    using stored(2) by (intro grows.appended grows.same)
  then have "extends ?st2 (?st2\<lparr>knowledge := knowledge ?st2 @ [d]\<rparr>)"
    by (simp add: extends_def)
  with e2 show ?thesis unfolding stored(1) by (rule extends_trans)
qed

lemma extends_closure: "extends st (snd (closure enum fuel i j st))"
proof -
  have "extends st st \<Longrightarrow> extends st (snd (closure enum fuel i j st))"
    by (rule closure_invariant [where P = "extends st"])
       (rule extends_trans [OF _ extends_closure_body])
  then show ?thesis by (simp add: extends_refl)
qed

lemma extends_add_knowledge_start: "extends st (result_state (add_knowledge_start enum cell n st))"
proof -
  let ?st2 = "mark_safe cell (st\<lparr>moves_made := insert cell (moves_made st)\<rparr>)"
  have "extends st (st\<lparr>moves_made := insert cell (moves_made st)\<rparr>)"
    by (auto simp: extends_def intro: grows.intros)
  then have e2: "extends st ?st2" using extends_mark_safe extends_trans by blast
  show ?thesis
  proof (cases "find_neighbours ?st2 cell")
    case (Inl e)
    then show ?thesis using e2 by (simp add: add_knowledge_start_def Let_def result_state_def)
  next
    case (Inr nb)
    let ?st3 = "add_safes enum (Sentence nb n) ?st2"
    let ?st4 = "add_mines enum (Sentence nb n) ?st3"
    have "extends ?st2 ?st3" by (rule extends_add_safes)
    moreover have "extends ?st3 ?st4" by (rule extends_add_mines)
    ultimately have "extends ?st2 ?st4" by (rule extends_trans)
    moreover have "extends ?st4 (append_new (Sentence nb n) ?st4)" by (rule extends_append_new)
    ultimately have "extends ?st2 (append_new (Sentence nb n)
             (add_mines enum (Sentence nb n) (add_safes enum (Sentence nb n) ?st2)))"
      by (rule extends_trans)
    with e2 have "extends st (append_new (Sentence nb n)
             (add_mines enum (Sentence nb n) (add_safes enum (Sentence nb n) ?st2)))"
      by (rule extends_trans)
    then show ?thesis using Inr
      by (simp add: add_knowledge_start_def Let_def result_state_def)
  qed
qed

lemma add_knowledge_cases:
  assumes "add_knowledge enum fuel cell n st = Some r"
  obtains (raised) e where "add_knowledge_start enum cell n st = Inl e" "r = Inl e"
  | (returned) st5 st' where "add_knowledge_start enum cell n st = Inr st5"
      "closure enum fuel 0 0 st5 = (True, st')" "r = Inr st'"
proof (cases "add_knowledge_start enum cell n st")
  case (Inl e)
  then have "r = Inl e" using assms by (simp add: add_knowledge_def)
  with Inl show ?thesis by (rule raised)
next
  case (Inr st5)
  obtain b st' where c: "closure enum fuel 0 0 st5 = (b, st')" by (cases "closure enum fuel 0 0 st5")
  then have "b \<and> r = Inr st'" using assms Inr by (cases b) (simp_all add: add_knowledge_def)
  with Inr c show ?thesis using returned by auto
qed

lemma extends_add_knowledge:
  assumes "add_knowledge enum fuel cell n st = Some r"
  shows "extends st (result_state r)"
  using assms
proof (cases rule: add_knowledge_cases)
  case (raised e)
  then show ?thesis using extends_add_knowledge_start [of st enum cell n] by simp
next
  case (returned st5 st')
  have "extends st st5" using extends_add_knowledge_start [of st enum cell n] returned(1)
    by (simp add: result_state_def)
  moreover have "extends st5 st'" using extends_closure [of st5 enum fuel 0 0] returned(2) by simp
  ultimately have "extends st st'" by (rule extends_trans)
  then show ?thesis using returned(3) by (simp add: result_state_def)
qed

section \<open>Worked examples\<close>

lemma valid_order_empty: "valid_order enum \<Longrightarrow> enum {} = []"
proof -
  assume "valid_order enum"
  then have "set (enum {}) = {}" by (simp add: valid_order_def)
  then show ?thesis by simp
qed

lemma valid_order_single: 
  assumes "valid_order enum" shows "enum {x} = [x]"
proof -
  have s: "set (enum {x}) = {x}" and d: "distinct (enum {x})"
    using assms by (simp_all add: valid_order_def)
  show ?thesis
  proof (cases "enum {x}")
    case Nil
    with s show ?thesis by simp
  next
    case (Cons a as)
    with s have a: "a = x" by auto
    have "as = []"
    proof (cases as)
      case Nil then show ?thesis .
    next
      case (Cons b bs)
      with s \<open>enum {x} = a # as\<close> have "b = x" by auto
      with a d \<open>enum {x} = a # as\<close> Cons show ?thesis by simp
    qed
    with a Cons show ?thesis by simp
  qed
qed

lemma find_neighbours_pair_left:
  "height st = 1 \<Longrightarrow> width st = 2 \<Longrightarrow> find_neighbours st (0, 0) = Inr {(0, 1)}"
  by (auto simp: find_neighbours_def Let_def upto.simps)

lemma find_neighbours_pair_right:
  "height st = 1 \<Longrightarrow> width st = 2 \<Longrightarrow> find_neighbours st (0, 1) = Inr {(0, 0)}"
  by (auto simp: find_neighbours_def Let_def upto.simps)

lemmas engine_defs = add_knowledge_def add_knowledge_start_def mark_safe_def mark_mine_def
  add_safes_def add_mines_def known_safes_def known_mines_def Sentence_def
  add_safes_step_def add_mines_step_def append_new_def closure_body_def Let_def
  sentence_mark_safe_def sentence_mark_mine_def closure.simps psubset_eq insert_Diff_if

lemma pair_call1:
  assumes v: "valid_order enum"
  shows "add_knowledge enum 3 (0, 0) 0 (MinesweeperAI 1 2) = Some (Inr pair1)"
  unfolding pair1_def
  by (simp add: engine_defs MinesweeperAI_def find_neighbours_pair_left
      valid_order_single [OF v] valid_order_empty [OF v] insert_commute)

lemma pair_call2:
  assumes v: "valid_order enum"
  shows "add_knowledge enum 9 (0, 1) 0 pair1 = Some (Inr pair2)"
  unfolding pair1_def pair2_def
  by (simp add: engine_defs find_neighbours_pair_right
      valid_order_single [OF v] valid_order_empty [OF v] insert_commute)


lemma flagged_call:
  assumes v: "valid_order enum"
  shows "add_knowledge enum 3 (0, 1) 1 (MinesweeperAI 1 2) = Some (Inr flagged)"
  unfolding flagged_def
  by (simp add: engine_defs MinesweeperAI_def find_neighbours_pair_right
      valid_order_single [OF v] valid_order_empty [OF v] insert_commute)

lemma find_neighbours_strip_mid:
  "height st = 1 \<Longrightarrow> width st = 3 \<Longrightarrow> find_neighbours st (0, 1) = Inr {(0, 0), (0, 2)}"
  by (auto simp: find_neighbours_def Let_def upto.simps)

lemma find_neighbours_strip_right:
  "height st = 1 \<Longrightarrow> width st = 3 \<Longrightarrow> find_neighbours st (0, 2) = Inr {(0, 1)}"
  by (auto simp: find_neighbours_def Let_def upto.simps)

lemma strip_call1:
  assumes v: "valid_order enum"
  shows "add_knowledge enum 9 (0, 1) 1 (MinesweeperAI 1 3) = Some (Inr strip1)"
  unfolding strip1_def
  by (simp add: engine_defs MinesweeperAI_def find_neighbours_strip_mid
      valid_order_single [OF v] valid_order_empty [OF v] insert_commute)

lemma strip_call2:
  assumes v: "valid_order enum"
  shows "add_knowledge enum 9 (0, 2) 0 strip1 = Some (Inr strip2)"
  unfolding strip1_def strip2_def
  by (simp add: engine_defs find_neighbours_strip_right
      valid_order_single [OF v] valid_order_empty [OF v] insert_commute)

lemma strip_call3:
  assumes v: "valid_order enum"
  shows "add_knowledge enum 20 (0, 2) 0 strip2 = Some (Inr strip3)"
  unfolding strip3_def strip2_def
  by (simp add: engine_defs find_neighbours_strip_right
      valid_order_single [OF v] valid_order_empty [OF v] insert_commute)


subsection \<open>The moves made\<close>

lemma moves_made_fold:
  assumes "\<And>c st. moves_made (f c st) = moves_made st"
  shows "moves_made (fold f cs st) = moves_made st"
  by (induction cs arbitrary: st) (simp_all add: assms)

lemma moves_made_add_safes: "moves_made (add_safes enum s st) = moves_made st"
  unfolding add_safes_def by (rule moves_made_fold) (simp add: add_safes_step_def Let_def)

lemma moves_made_add_mines: "moves_made (add_mines enum s st) = moves_made st"
  unfolding add_mines_def by (rule moves_made_fold) (simp add: add_mines_step_def Let_def)

lemma moves_made_closure_body: "moves_made (closure_body enum i j st) = moves_made st"
  by (cases rule: closure_body_cases [of enum i j st])
     (simp_all add: moves_made_add_safes moves_made_add_mines)

lemma moves_made_closure: "moves_made (snd (closure enum fuel i j st)) = moves_made st"
proof -
  have "moves_made st = moves_made st \<Longrightarrow> moves_made (snd (closure enum fuel i j st)) = moves_made st"
    by (rule closure_invariant [where P = "\<lambda>s. moves_made s = moves_made st"])
       (simp add: moves_made_closure_body)
  then show ?thesis by simp
qed

lemma moves_made_add_knowledge_start:
  "moves_made (result_state (add_knowledge_start enum cell n st)) = insert cell (moves_made st)"
  by (cases "find_neighbours (mark_safe cell (st\<lparr>moves_made := insert cell (moves_made st)\<rparr>)) cell")
     (simp_all add: add_knowledge_start_def Let_def result_state_def
        moves_made_add_safes moves_made_add_mines)

lemma moves_made_add_knowledge:
  assumes "add_knowledge enum fuel cell n st = Some r"
  shows "moves_made (result_state r) = insert cell (moves_made st)"
  using assms
proof (cases rule: add_knowledge_cases)
  case (raised e)
  then show ?thesis using moves_made_add_knowledge_start [of enum cell n st] by simp
next
  case (returned st5 st')
  have "moves_made st5 = insert cell (moves_made st)"
    using moves_made_add_knowledge_start [of enum cell n st] returned(1)
    by (simp add: result_state_def)
  moreover have "moves_made st' = moves_made st5"
    using moves_made_closure [of enum fuel 0 0 st5] returned(2) by simp
  ultimately show ?thesis using returned(3) by (simp add: result_state_def)
qed

lemma make_random_move_state:
  assumes "make_random_move rnd k st = Some (x, st')"
  shows "st' = st"
proof -
  define P where "P = (\<lambda>(rnd::nat \<Rightarrow> nat) (k::nat) (st::ai) (y::(error + cell) \<times> ai). snd y = st)"
  have "P rnd k st (x, st')"
  proof (rule make_random_move.raw_induct [where P = P, OF _ assms])
    fix mrm rnd k st y
    assume IH: "\<And>rnd k st y. mrm rnd k st = Some y \<Longrightarrow> P rnd k st y"
      and eq: "(case randint rnd k 0 (height st - 1) of
        Inl e \<Rightarrow> Some (Inl e, st)
      | Inr r \<Rightarrow>
          (case randint rnd (k + 1) 0 (width st - 1) of
             Inl e \<Rightarrow> Some (Inl e, st)
           | Inr c \<Rightarrow>
               if (r, c) \<notin> moves_made st
               then (if (r, c) \<notin> mines st then Some (Inr (r, c), st)
                     else mrm rnd (k + 2) st)
               else mrm rnd (k + 2) st)) = Some y"
    show "P rnd k st y"
      by (rule make_random_move_step [where mrm = mrm and rnd = rnd and k = k and y = y
            and P = "P rnd k", OF _ _ _ eq]) (use IH in \<open>auto simp: P_def\<close>)
  qed
  then show ?thesis by (simp add: P_def)
qed


section \<open>Every change of the knowledge list is a step\<close>

lemma steps_from_append:
  "steps_from K (Ks @ Ls) \<longleftrightarrow> steps_from K Ks \<and> steps_from (last (K # Ks)) Ls"
  by (induction Ks arbitrary: K) auto

lemma knowledge_step_refl: "knowledge_step K K"
  by (simp add: knowledge_step_def)

lemma knowledge_step_mark_safe: "knowledge_step (knowledge st) (knowledge (mark_safe c st))"
proof -
  have "\<exists>c'. knowledge (mark_safe c st) = map (sentence_mark_safe c') (knowledge st)"
    by (rule exI [of _ c]) simp
  then show ?thesis unfolding knowledge_step_def by blast
qed

lemma knowledge_step_mark_mine: "knowledge_step (knowledge st) (knowledge (mark_mine c st))"
proof -
  have "\<exists>c'. knowledge (mark_mine c st) = map (sentence_mark_mine c') (knowledge st)"
    by (rule exI [of _ c]) simp
  then show ?thesis unfolding knowledge_step_def by blast
qed

lemma knowledge_step_append_new: "knowledge_step (knowledge st) (knowledge (append_new s st))"
  by (auto simp: knowledge_step_def)

lemma knowledge_step_add_safes_step:
  "knowledge_step (knowledge (mark_safe c st)) (knowledge (add_safes_step d c st))"
proof -
  let ?st2 = "(mark_safe c st)\<lparr>safes := insert c (safes (mark_safe c st))\<rparr>"
  have "knowledge_step (knowledge ?st2) (knowledge (append_new (Sentence (cells d - {c}) (count d)) ?st2))"
    by (rule knowledge_step_append_new)
  then show ?thesis
    unfolding add_safes_step_def Let_def
    by (cases "1 < card (cells d)") (simp_all add: knowledge_step_refl)
qed

lemma knowledge_step_add_mines_step:
  "knowledge_step (knowledge (mark_mine c st)) (knowledge (add_mines_step d c st))"
proof -
  let ?st2 = "(mark_mine c st)\<lparr>mines := insert c (mines (mark_mine c st))\<rparr>"
  have "knowledge_step (knowledge ?st2) (knowledge (append_new (Sentence (cells d - {c}) (count d - 1)) ?st2))"
    by (rule knowledge_step_append_new)
  then show ?thesis
    unfolding add_mines_step_def Let_def
    by (cases "1 < card (cells d)") (simp_all add: knowledge_step_refl)
qed

lemma add_safes_loop_trace_ok:
  "steps_from (knowledge st) (add_safes_loop_trace d cs st) \<and>
   last (knowledge st # add_safes_loop_trace d cs st) = knowledge (fold (add_safes_step d) cs st)"
  by (induction cs arbitrary: st)
     (simp_all add: knowledge_step_mark_safe [simplified] knowledge_step_add_safes_step [simplified])

lemma add_mines_loop_trace_ok:
  "steps_from (knowledge st) (add_mines_loop_trace d cs st) \<and>
   last (knowledge st # add_mines_loop_trace d cs st) = knowledge (fold (add_mines_step d) cs st)"
  by (induction cs arbitrary: st)
     (simp_all add: knowledge_step_mark_mine [simplified] knowledge_step_add_mines_step [simplified])

lemma add_safes_trace_ok:
  "steps_from (knowledge st) (add_safes_trace enum d st) \<and>
   last (knowledge st # add_safes_trace enum d st) = knowledge (add_safes enum d st)"
  unfolding add_safes_trace_def add_safes_def by (rule add_safes_loop_trace_ok)

lemma add_mines_trace_ok:
  "steps_from (knowledge st) (add_mines_trace enum d st) \<and>
   last (knowledge st # add_mines_trace enum d st) = knowledge (add_mines enum d st)"
  unfolding add_mines_trace_def add_mines_def by (rule add_mines_loop_trace_ok)

lemma last_cons_append: "last (x # xs @ ys) = last (last (x # xs) # ys)"
  by (cases ys) (simp_all add: last_append)

lemma closure_body_trace_ok:
  "steps_from (knowledge st) (closure_body_trace enum i j st) \<and>
   last (knowledge st # closure_body_trace enum i j st) = knowledge (closure_body enum i j st)"
proof (cases "knowledge st ! i \<noteq> knowledge st ! j \<and> cells (knowledge st ! i) \<subset> cells (knowledge st ! j)")
  case False
  then have "closure_body_trace enum i j st = []" "closure_body enum i j st = st"
    unfolding closure_body_trace_def closure_body_def Let_def by auto
  then show ?thesis by simp
next
  case True
  define d where "d = Sentence (cells (knowledge st ! j) - cells (knowledge st ! i))
              (count (knowledge st ! j) - count (knowledge st ! i))"
  define st1 where "st1 = add_safes enum d st"
  define st2 where "st2 = add_mines enum d st1"
  have tr: "closure_body_trace enum i j st =
      add_safes_trace enum d st @ add_mines_trace enum d st1 @ [knowledge (closure_body enum i j st)]"
    using True unfolding closure_body_trace_def Let_def d_def st1_def by simp
  have body: "closure_body enum i j st =
      (if count d \<noteq> 0 \<and> count d \<noteq> int (card (cells d)) \<and> d \<notin> set (knowledge st2)
       then st2\<lparr>knowledge := knowledge st2 @ [d]\<rparr> else st2)"
    using True unfolding closure_body_def Let_def d_def st1_def st2_def by simp
  have fin: "knowledge_step (knowledge st2) (knowledge (closure_body enum i j st))"
    unfolding body by (auto simp: knowledge_step_def)
  have a: "steps_from (knowledge st) (add_safes_trace enum d st)"
    "last (knowledge st # add_safes_trace enum d st) = knowledge st1"
    using add_safes_trace_ok [of st enum d] by (simp_all add: st1_def)
  have b: "steps_from (knowledge st1) (add_mines_trace enum d st1)"
    "last (knowledge st1 # add_mines_trace enum d st1) = knowledge st2"
    using add_mines_trace_ok [of st1 enum d] by (simp_all add: st2_def)
  have "steps_from (knowledge st) (closure_body_trace enum i j st)"
    unfolding tr steps_from_append using a b fin by simp
  moreover have "last (knowledge st # closure_body_trace enum i j st) = knowledge (closure_body enum i j st)"
    unfolding tr by simp
  ultimately show ?thesis by simp
qed

lemma closure_trace_ok:
  "steps_from (knowledge st) (closure_trace enum fuel i j st) \<and>
   last (knowledge st # closure_trace enum fuel i j st) = knowledge (snd (closure enum fuel i j st))"
proof (induction fuel arbitrary: i j st)
  case 0
  show ?case by (simp add: closure_trace.simps closure.simps)
next
  case (Suc fuel)
  show ?case
  proof (cases "length (knowledge st) \<le> i")
    case True
    then show ?thesis by (simp add: closure_trace.simps closure.simps)
  next
    case i: False
    show ?thesis
    proof (cases "length (knowledge st) \<le> j")
      case True
      then show ?thesis using i Suc [of st "Suc i" 0] by (simp add: closure_trace.simps closure.simps)
    next
      case False
      have b: "steps_from (knowledge st) (closure_body_trace enum i j st)"
        "last (knowledge st # closure_body_trace enum i j st) = knowledge (closure_body enum i j st)"
        using closure_body_trace_ok [of st enum i j] by simp_all
      have r: "steps_from (knowledge (closure_body enum i j st))
                 (closure_trace enum fuel i (Suc j) (closure_body enum i j st))"
        "last (knowledge (closure_body enum i j st) # closure_trace enum fuel i (Suc j) (closure_body enum i j st))
           = knowledge (snd (closure enum fuel i (Suc j) (closure_body enum i j st)))"
        using Suc [of "closure_body enum i j st" i "Suc j"] by simp_all
      have t: "closure_trace enum (Suc fuel) i j st =
          closure_body_trace enum i j st @ closure_trace enum fuel i (Suc j) (closure_body enum i j st)"
        using i False by (simp add: closure_trace.simps)
      have c: "closure enum (Suc fuel) i j st = closure enum fuel i (Suc j) (closure_body enum i j st)"
        using i False by (simp add: closure.simps)
      have "steps_from (knowledge st) (closure_trace enum (Suc fuel) i j st)"
        unfolding t steps_from_append using b r by simp
      moreover have "last (knowledge st # closure_trace enum (Suc fuel) i j st)
          = knowledge (snd (closure enum (Suc fuel) i j st))"
        unfolding t c last_cons_append b(2) using r(2) by simp
      ultimately show ?thesis by simp
    qed
  qed
qed


lemma add_knowledge_trace_ok:
  "steps_from (knowledge st) (add_knowledge_trace enum fuel cell n st) \<and>
   (add_knowledge enum fuel cell n st = Some r \<longrightarrow>
      last (knowledge st # add_knowledge_trace enum fuel cell n st) = knowledge (result_state r))"
proof -
  define st2 where "st2 = mark_safe cell (st\<lparr>moves_made := insert cell (moves_made st)\<rparr>)"
  have m: "knowledge_step (knowledge st) (knowledge st2)"
    using knowledge_step_mark_safe [of "st\<lparr>moves_made := insert cell (moves_made st)\<rparr>" cell]
    by (simp add: st2_def)
  show ?thesis
  proof (cases "find_neighbours st2 cell")
    case (Inl e)
    then have t: "add_knowledge_trace enum fuel cell n st = [knowledge st2]"
      unfolding add_knowledge_trace_def Let_def st2_def by simp
    have "add_knowledge enum fuel cell n st = Some (Inl (e, st2))"
      using Inl unfolding add_knowledge_def add_knowledge_start_def Let_def st2_def by simp
    then show ?thesis using m t by (auto simp: result_state_def)
  next
    case (Inr nb)
    define sent where "sent = Sentence nb n"
    define st3 where "st3 = add_safes enum sent st2"
    define st4 where "st4 = add_mines enum sent st3"
    define st5 where "st5 = append_new sent st4"
    have t: "add_knowledge_trace enum fuel cell n st =
        knowledge st2 # (add_safes_trace enum sent st2 @ add_mines_trace enum sent st3
          @ [knowledge st5] @ closure_trace enum fuel 0 0 st5)"
      using Inr unfolding add_knowledge_trace_def Let_def st2_def sent_def st3_def st4_def st5_def
      by simp
    have start: "add_knowledge_start enum cell n st = Inr st5"
      using Inr unfolding add_knowledge_start_def Let_def st2_def sent_def st3_def st4_def st5_def
      by simp
    have a: "steps_from (knowledge st2) (add_safes_trace enum sent st2)"
      "last (knowledge st2 # add_safes_trace enum sent st2) = knowledge st3"
      using add_safes_trace_ok [of st2 enum sent] by (simp_all add: st3_def)
    have b: "steps_from (knowledge st3) (add_mines_trace enum sent st3)"
      "last (knowledge st3 # add_mines_trace enum sent st3) = knowledge st4"
      using add_mines_trace_ok [of st3 enum sent] by (simp_all add: st4_def)
    have c: "knowledge_step (knowledge st4) (knowledge st5)"
      unfolding st5_def by (rule knowledge_step_append_new)
    have d: "steps_from (knowledge st5) (closure_trace enum fuel 0 0 st5)"
      "last (knowledge st5 # closure_trace enum fuel 0 0 st5) = knowledge (snd (closure enum fuel 0 0 st5))"
      using closure_trace_ok [of st5 enum fuel 0 0] by simp_all
    have 1: "steps_from (knowledge st) (add_knowledge_trace enum fuel cell n st)"
      unfolding t using m a b c d by (simp add: steps_from_append)
    have 2: "last (knowledge st # add_knowledge_trace enum fuel cell n st)
        = knowledge (snd (closure enum fuel 0 0 st5))"
      unfolding t using d(2) by (simp add: last_append)
    have 3: "knowledge (result_state r) = knowledge (snd (closure enum fuel 0 0 st5))"
      if "add_knowledge enum fuel cell n st = Some r"
      using that
    proof (cases rule: add_knowledge_cases)
      case (raised e)
      then show ?thesis using start by simp
    next
      case (returned st5' st')
      then show ?thesis using start by (simp add: result_state_def)
    qed
    show ?thesis using 1 2 3 by simp
  qed
qed

lemma knowledge_step_shape:
  assumes "knowledge_step K K'"
  shows "length K \<le> length K' \<and> (length K < length K' \<longrightarrow> (\<exists>s. s \<notin> set K \<and> K' = K @ [s])) \<and>
         (\<forall>p < length K. cells (K' ! p) \<subseteq> cells (K ! p))"
  using assms unfolding knowledge_step_def
  by (auto simp: nth_append sentence_mark_safe_cells sentence_mark_mine_cells)

section \<open>The nested loops end when the engine agrees with a layout\<close>

subsection \<open>The shape of the list after the loops of add_safes and add_mines\<close>

lemma cells_fold_mark_safe: "cells (fold sentence_mark_safe cs s) = cells s - set cs"
  by (induction cs arbitrary: s) (auto simp: sentence_mark_safe_cells)

lemma cells_fold_mark_mine: "cells (fold sentence_mark_mine cs s) = cells s - set cs"
  by (induction cs arbitrary: s) (auto simp: sentence_mark_mine_cells)

lemma fold_mark_safe_id: "cells s \<inter> set cs = {} \<Longrightarrow> fold sentence_mark_safe cs s = s"
  by (induction cs arbitrary: s) (auto simp: sentence_mark_safe_def)

lemma fold_mark_mine_id: "cells s \<inter> set cs = {} \<Longrightarrow> fold sentence_mark_mine cs s = s"
  by (induction cs arbitrary: s) (auto simp: sentence_mark_mine_def)

lemma knowledge_add_safes_step:
  "\<exists>ex. knowledge (add_safes_step d c st) = map (sentence_mark_safe c) (knowledge st) @ ex \<and>
        length ex \<le> 1 \<and> (\<forall>e \<in> set ex. cells e = cells d - {c})"
proof (cases "1 < card (cells d) \<and>
    Sentence (cells d - {c}) (count d) \<notin> set (map (sentence_mark_safe c) (knowledge st))")
  case True
  then have "knowledge (add_safes_step d c st) =
      map (sentence_mark_safe c) (knowledge st) @ [Sentence (cells d - {c}) (count d)]"
    by (simp add: add_safes_step_def Let_def)
  then show ?thesis
    by (intro exI [of _ "[Sentence (cells d - {c}) (count d)]"]) (simp add: Sentence_def)
next
  case False
  then have "knowledge (add_safes_step d c st) = map (sentence_mark_safe c) (knowledge st) @ []"
    unfolding add_safes_step_def Let_def by (cases "1 < card (cells d)") simp_all
  then show ?thesis by (intro exI [of _ "[]"]) simp
qed

lemma knowledge_add_mines_step:
  "\<exists>ex. knowledge (add_mines_step d c st) = map (sentence_mark_mine c) (knowledge st) @ ex \<and>
        length ex \<le> 1 \<and> (\<forall>e \<in> set ex. cells e = cells d - {c})"
proof (cases "1 < card (cells d) \<and>
    Sentence (cells d - {c}) (count d - 1) \<notin> set (map (sentence_mark_mine c) (knowledge st))")
  case True
  then have "knowledge (add_mines_step d c st) =
      map (sentence_mark_mine c) (knowledge st) @ [Sentence (cells d - {c}) (count d - 1)]"
    by (simp add: add_mines_step_def Let_def)
  then show ?thesis
    by (intro exI [of _ "[Sentence (cells d - {c}) (count d - 1)]"]) (simp add: Sentence_def)
next
  case False
  then have "knowledge (add_mines_step d c st) = map (sentence_mark_mine c) (knowledge st) @ []"
    unfolding add_mines_step_def Let_def by (cases "1 < card (cells d)") simp_all
  then show ?thesis by (intro exI [of _ "[]"]) simp
qed

text \<open>After the loop over the cells \<open>cs\<close> of \<open>d\<close>: the old sentences, each without the
  cells \<open>cs\<close>, followed by at most one new sentence per round, each a proper part of \<open>d\<close>.\<close>

lemma knowledge_add_safes_loop:
  assumes "set cs \<subseteq> cells d"
  shows "\<exists>ex. knowledge (fold (add_safes_step d) cs st) =
              map (fold sentence_mark_safe cs) (knowledge st) @ ex \<and>
           length ex \<le> length cs \<and> (\<forall>e \<in> set ex. \<exists>c \<in> cells d. cells e \<subseteq> cells d - {c})"
  using assms
proof (induction cs arbitrary: st)
  case Nil
  then show ?case by simp
next
  case (Cons c cs)
  obtain ex0 where ex0: "knowledge (add_safes_step d c st) = map (sentence_mark_safe c) (knowledge st) @ ex0"
      "length ex0 \<le> 1" "\<forall>e \<in> set ex0. cells e = cells d - {c}"
    using knowledge_add_safes_step [of d c st] by blast
  obtain ex1 where ex1: "knowledge (fold (add_safes_step d) cs (add_safes_step d c st)) =
              map (fold sentence_mark_safe cs) (knowledge (add_safes_step d c st)) @ ex1"
           "length ex1 \<le> length cs" "\<forall>e \<in> set ex1. \<exists>c \<in> cells d. cells e \<subseteq> cells d - {c}"
    using Cons.IH [of "add_safes_step d c st"] Cons.prems by auto
  let ?ex = "map (fold sentence_mark_safe cs) ex0 @ ex1"
  have "knowledge (fold (add_safes_step d) (c # cs) st) =
          map (fold sentence_mark_safe (c # cs)) (knowledge st) @ ?ex"
    using ex0(1) ex1(1) by simp
  moreover have "length ?ex \<le> length (c # cs)" using ex0(2) ex1(2) by simp
  moreover have "\<forall>e \<in> set ?ex. \<exists>c \<in> cells d. cells e \<subseteq> cells d - {c}"
  proof
    fix e assume "e \<in> set ?ex"
    then consider e0 where "e0 \<in> set ex0" "e = fold sentence_mark_safe cs e0" | "e \<in> set ex1" by auto
    then show "\<exists>c \<in> cells d. cells e \<subseteq> cells d - {c}"
    proof cases
      case 1
      then have "cells e \<subseteq> cells d - {c}" using ex0(3) by (auto simp: cells_fold_mark_safe)
      moreover have "c \<in> cells d" using Cons.prems by simp
      ultimately show ?thesis by blast
    next
      case 2
      then show ?thesis using ex1(3) by blast
    qed
  qed
  ultimately show ?case by blast
qed

lemma knowledge_add_mines_loop:
  assumes "set cs \<subseteq> cells d"
  shows "\<exists>ex. knowledge (fold (add_mines_step d) cs st) =
              map (fold sentence_mark_mine cs) (knowledge st) @ ex \<and>
           length ex \<le> length cs \<and> (\<forall>e \<in> set ex. \<exists>c \<in> cells d. cells e \<subseteq> cells d - {c})"
  using assms
proof (induction cs arbitrary: st)
  case Nil
  then show ?case by simp
next
  case (Cons c cs)
  obtain ex0 where ex0: "knowledge (add_mines_step d c st) = map (sentence_mark_mine c) (knowledge st) @ ex0"
      "length ex0 \<le> 1" "\<forall>e \<in> set ex0. cells e = cells d - {c}"
    using knowledge_add_mines_step [of d c st] by blast
  obtain ex1 where ex1: "knowledge (fold (add_mines_step d) cs (add_mines_step d c st)) =
              map (fold sentence_mark_mine cs) (knowledge (add_mines_step d c st)) @ ex1"
           "length ex1 \<le> length cs" "\<forall>e \<in> set ex1. \<exists>c \<in> cells d. cells e \<subseteq> cells d - {c}"
    using Cons.IH [of "add_mines_step d c st"] Cons.prems by auto
  let ?ex = "map (fold sentence_mark_mine cs) ex0 @ ex1"
  have "knowledge (fold (add_mines_step d) (c # cs) st) =
          map (fold sentence_mark_mine (c # cs)) (knowledge st) @ ?ex"
    using ex0(1) ex1(1) by simp
  moreover have "length ?ex \<le> length (c # cs)" using ex0(2) ex1(2) by simp
  moreover have "\<forall>e \<in> set ?ex. \<exists>c \<in> cells d. cells e \<subseteq> cells d - {c}"
  proof
    fix e assume "e \<in> set ?ex"
    then consider e0 where "e0 \<in> set ex0" "e = fold sentence_mark_mine cs e0" | "e \<in> set ex1" by auto
    then show "\<exists>c \<in> cells d. cells e \<subseteq> cells d - {c}"
    proof cases
      case 1
      then have "cells e \<subseteq> cells d - {c}" using ex0(3) by (auto simp: cells_fold_mark_mine)
      moreover have "c \<in> cells d" using Cons.prems by simp
      ultimately show ?thesis by blast
    next
      case 2
      then show ?thesis using ex1(3) by blast
    qed
  qed
  ultimately show ?case by blast
qed

lemma valid_order_enum_empty: "valid_order enum \<Longrightarrow> enum {} = []"
  using valid_order_empty .

lemma nontrivial_true:
  assumes "sentence_true M s"
  shows "nontrivial s \<longleftrightarrow> cells s \<inter> M \<noteq> {} \<and> \<not> cells s \<subseteq> M"
proof -
  have fin: "finite (cells s)" and c: "count s = int (card (cells s \<inter> M))"
    using assms by (simp_all add: sentence_true_def)
  have "card (cells s \<inter> M) = 0 \<longleftrightarrow> cells s \<inter> M = {}" using fin by simp
  moreover have "card (cells s \<inter> M) = card (cells s) \<longleftrightarrow> cells s \<subseteq> M"
  proof
    assume "card (cells s \<inter> M) = card (cells s)"
    then have "cells s \<inter> M = cells s" using fin by (intro card_subset_eq) auto
    then show "cells s \<subseteq> M" by auto
  next
    assume "cells s \<subseteq> M"
    then have "cells s \<inter> M = cells s" by auto
    then show "card (cells s \<inter> M) = card (cells s)" by simp
  qed
  ultimately show ?thesis using c by (simp add: nontrivial_def)
qed

lemma nontrivial_superset:
  assumes "sentence_true M s" "sentence_true M s'" "cells s' \<subseteq> cells s" "nontrivial s'"
  shows "nontrivial s"
  using assms nontrivial_true [of M s] nontrivial_true [of M s'] by auto

lemma add_safes_nonzero: "valid_order enum \<Longrightarrow> count d \<noteq> 0 \<Longrightarrow> add_safes enum d st = st"
  by (simp add: add_safes_def known_safes_def valid_order_empty)

lemma add_mines_noncard:
  "valid_order enum \<Longrightarrow> count d \<noteq> int (card (cells d)) \<Longrightarrow> add_mines enum d st = st"
  by (simp add: add_mines_def known_mines_def valid_order_empty)

lemma add_safes_zero:
  "count d = 0 \<Longrightarrow> add_safes enum d st = fold (add_safes_step d) (enum (cells d)) st"
  by (simp add: add_safes_def known_safes_def)

lemma add_mines_card:
  "count d = int (card (cells d)) \<Longrightarrow> add_mines enum d st = fold (add_mines_step d) (enum (cells d)) st"
  by (simp add: add_mines_def known_mines_def)

text \<open>What the loop body does in a state that agrees with the layout.\<close>

lemma closure_body_sound_cases:
  assumes v: "valid_order enum" and s: "sound M st"
    and i: "i < length (knowledge st)" and j: "j < length (knowledge st)"
  obtains (skip) "closure_body enum i j st = st"
  | (store) d where "d = Sentence (cells (knowledge st ! j) - cells (knowledge st ! i))
                              (count (knowledge st ! j) - count (knowledge st ! i))"
      "cells (knowledge st ! i) \<subset> cells (knowledge st ! j)" "sentence_true M d"
      "nontrivial d" "d \<notin> set (knowledge st)"
      "closure_body enum i j st = st\<lparr>knowledge := knowledge st @ [d]\<rparr>"
  | (safe) d where "d = Sentence (cells (knowledge st ! j) - cells (knowledge st ! i))
                              (count (knowledge st ! j) - count (knowledge st ! i))"
      "cells (knowledge st ! i) \<subset> cells (knowledge st ! j)" "sentence_true M d"
      "count d = 0"
      "closure_body enum i j st = fold (add_safes_step d) (enum (cells d)) st"
  | (mine) d where "d = Sentence (cells (knowledge st ! j) - cells (knowledge st ! i))
                              (count (knowledge st ! j) - count (knowledge st ! i))"
      "cells (knowledge st ! i) \<subset> cells (knowledge st ! j)" "sentence_true M d"
      "count d = int (card (cells d))" "count d \<noteq> 0"
      "closure_body enum i j st = fold (add_mines_step d) (enum (cells d)) st"
proof -
  let ?a = "knowledge st ! i" and ?b = "knowledge st ! j"
  define d where "d = Sentence (cells ?b - cells ?a) (count ?b - count ?a)"
  have a: "sentence_true M ?a" and b: "sentence_true M ?b"
    using s i j by (simp_all add: sound_def)
  show ?thesis
  proof (cases "?a \<noteq> ?b \<and> cells ?a \<subset> cells ?b")
    case False
    then have "closure_body enum i j st = st" unfolding closure_body_def Let_def by auto
    then show ?thesis by (rule skip)
  next
    case sub: True
    then have td: "sentence_true M d"
      unfolding d_def using sentence_true_difference [OF a b] by auto
    have cd: "cells d = cells ?b - cells ?a" by (simp add: d_def Sentence_def)
    have ne: "cells d \<noteq> {}" using sub cd by auto
    have fin: "finite (cells d)" using td by (simp add: sentence_true_def)
    have card0: "card (cells d) \<noteq> 0" using ne fin by simp
    have body: "closure_body enum i j st =
        (let st2 = add_mines enum d (add_safes enum d st)
         in if count d \<noteq> 0 \<and> count d \<noteq> int (card (cells d)) \<and> d \<notin> set (knowledge st2)
            then st2\<lparr>knowledge := knowledge st2 @ [d]\<rparr> else st2)"
      using sub unfolding closure_body_def Let_def d_def by simp
    show ?thesis
    proof (cases "count d = 0")
      case True
      then have "count d \<noteq> int (card (cells d))" using card0 by simp
      then have "closure_body enum i j st = fold (add_safes_step d) (enum (cells d)) st"
        using body True by (simp add: Let_def add_mines_noncard [OF v] add_safes_zero)
      then show ?thesis using safe [OF d_def _ td True] sub by blast
    next
      case nz: False
      show ?thesis
      proof (cases "count d = int (card (cells d))")
        case True
        then have "closure_body enum i j st = fold (add_mines_step d) (enum (cells d)) st"
          using body nz by (simp add: Let_def add_safes_nonzero [OF v] add_mines_card)
        then show ?thesis using mine [OF d_def _ td True nz] sub by blast
      next
        case False
        then have nt: "nontrivial d" using nz by (simp add: nontrivial_def)
        have same: "add_mines enum d (add_safes enum d st) = st"
          using nz False by (simp add: add_safes_nonzero [OF v] add_mines_noncard [OF v])
        show ?thesis
        proof (cases "d \<in> set (knowledge st)")
          case True
          then have "closure_body enum i j st = st" using body same by (simp add: Let_def)
          then show ?thesis by (rule skip)
        next
          case False
          then have "closure_body enum i j st = st\<lparr>knowledge := knowledge st @ [d]\<rparr>"
            using body same nz \<open>count d \<noteq> int (card (cells d))\<close> by (simp add: Let_def)
          then show ?thesis using store [OF d_def _ td nt False] sub by blast
        qed
      qed
    qed
  qed
qed

subsection \<open>Live cells and candidates\<close>

lemma live_cells_finite: "\<forall>s \<in> set K. finite (cells s) \<Longrightarrow> finite (live_cells K)"
  by (auto simp: live_cells_def)

lemma live_cells_member: "s \<in> set K \<Longrightarrow> nontrivial s \<Longrightarrow> cells s \<subseteq> live_cells K"
  by (auto simp: live_cells_def)

lemma candidates_finite: "finite (live_cells K) \<Longrightarrow> finite (candidates M K)"
  by (rule finite_subset [of _ "Pow (live_cells K)"]) (auto simp: candidates_def)

lemma layout_sentence_true:
  "sentence_true M d \<Longrightarrow> layout_sentence M (cells d) = d"
  by (simp add: layout_sentence_def sentence_true_def Sentence_def)

lemma layout_sentence_cells [simp]: "cells (layout_sentence M S) = S"
  by (simp add: layout_sentence_def Sentence_def)

lemma layout_sentence_inj: "layout_sentence M S = layout_sentence M T \<Longrightarrow> S = T"
  using layout_sentence_cells by metis

text \<open>Storing a derived sentence: the live cells stay, one candidate is used up.\<close>

lemma live_cells_store:
  assumes "b \<in> set K" "sentence_true M b" "sentence_true M d" "cells d \<subseteq> cells b"
  shows "live_cells (K @ [d]) = live_cells K"
proof (cases "nontrivial d")
  case False
  then show ?thesis by (auto simp: live_cells_def)
next
  case True
  then have "nontrivial b" using nontrivial_superset [OF assms(2,3,4)] by simp
  then have "cells d \<subseteq> live_cells K" using live_cells_member [OF assms(1)] assms(4) by auto
  then show ?thesis using True by (auto simp: live_cells_def)
qed

lemma candidates_store:
  assumes "b \<in> set K" "sentence_true M b" "sentence_true M d" "cells d \<subseteq> cells b"
    "nontrivial d" "d \<notin> set K" "\<forall>s \<in> set K. finite (cells s)"
  shows "card (candidates M (K @ [d])) < card (candidates M K)"
proof -
  have live: "live_cells (K @ [d]) = live_cells K" by (rule live_cells_store [OF assms(1-4)])
  have nb: "nontrivial b" using nontrivial_superset [OF assms(2,3,4,5)] .
  have dl: "cells d \<subseteq> live_cells K" using live_cells_member [OF assms(1) nb] assms(4) by auto
  have ld: "layout_sentence M (cells d) = d" by (rule layout_sentence_true [OF assms(3)])
  have "cells d \<in> candidates M K" using dl ld assms(5,6) by (simp add: candidates_def)
  moreover have "cells d \<notin> candidates M (K @ [d])" using ld by (simp add: candidates_def)
  moreover have "candidates M (K @ [d]) \<subseteq> candidates M K" using live by (auto simp: candidates_def)
  ultimately have "candidates M (K @ [d]) \<subset> candidates M K" by auto
  moreover have "finite (candidates M K)"
    by (intro candidates_finite live_cells_finite assms(7))
  ultimately show ?thesis by (rule psubset_card_mono [rotated])
qed

text \<open>Propagating the cells \<open>D\<close>, all safe or all mines, into the list.\<close>

lemma live_cells_propagated:
  assumes K': "K' = map f K @ ex"
    and f: "\<And>s. cells (f s) = cells s - D"
    and ex: "\<forall>e \<in> set ex. cells e \<subseteq> D"
    and t: "\<forall>s \<in> set K. sentence_true M s" and t': "\<forall>s \<in> set K'. sentence_true M s"
    and triv: "D \<inter> M = {} \<or> D \<subseteq> M"
  shows "live_cells K' \<subseteq> live_cells K - D"
proof
  fix x assume "x \<in> live_cells K'"
  then obtain s' where s': "s' \<in> set K'" "nontrivial s'" "x \<in> cells s'"
    by (auto simp: live_cells_def)
  have ts': "sentence_true M s'" using t' s'(1) by blast
  from s'(1) K' consider s where "s \<in> set K" "s' = f s" | "s' \<in> set ex" by auto
  then show "x \<in> live_cells K - D"
  proof cases
    case 1
    have "cells s' \<subseteq> cells s" using 1(2) f by auto
    then have "nontrivial s" using nontrivial_superset [OF _ ts' _ s'(2)] t 1(1) by blast
    then have "cells s \<subseteq> live_cells K" using live_cells_member [OF 1(1)] by simp
    then show ?thesis using s'(3) 1(2) f by auto
  next
    case 2
    then have "cells s' \<subseteq> D" using ex by blast
    then have "cells s' \<inter> M = {} \<or> cells s' \<subseteq> M" using triv by auto
    then have "\<not> nontrivial s'" using nontrivial_true [OF ts'] by auto
    then show ?thesis using s'(2) by simp
  qed
qed

lemma candidates_propagated:
  assumes K': "K' = map f K @ ex"
    and f: "\<And>s. cells (f s) = cells s - D"
    and fid: "\<And>s. cells s \<inter> D = {} \<Longrightarrow> f s = s"
    and ex: "\<forall>e \<in> set ex. cells e \<subseteq> D"
    and t: "\<forall>s \<in> set K. sentence_true M s" and t': "\<forall>s \<in> set K'. sentence_true M s"
    and triv: "D \<inter> M = {} \<or> D \<subseteq> M"
    and away: "live_cells K \<inter> D = {}"
  shows "live_cells K' = live_cells K \<and> candidates M K' \<subseteq> candidates M K"
proof -
  have keep: "s \<in> set K'" if "s \<in> set K" "nontrivial s" for s
  proof -
    have "cells s \<inter> D = {}" using live_cells_member [OF that] away by auto
    then have "f s = s" by (rule fid)
    then show ?thesis using that(1) K' by force
  qed
  have "live_cells K \<subseteq> live_cells K'" using keep by (auto simp: live_cells_def)
  moreover have "live_cells K' \<subseteq> live_cells K"
    using live_cells_propagated [OF K' f ex t t' triv] by auto
  ultimately have live: "live_cells K' = live_cells K" by auto
  have "candidates M K' \<subseteq> candidates M K"
  proof
    fix S assume S: "S \<in> candidates M K'"
    then have "layout_sentence M S \<notin> set K" using keep by (auto simp: candidates_def)
    then show "S \<in> candidates M K" using S live by (simp add: candidates_def)
  qed
  with live show ?thesis by simp
qed

subsection \<open>The weight of the list\<close>

lemma weight_append: "weight B (K @ L) = weight B K + weight B L"
  by (simp add: weight_def)

lemma sum_list_bounded:
  "(\<forall>x \<in> set xs. f x \<le> (c::nat)) \<Longrightarrow> sum_list (map f xs) \<le> length xs * c"
  by (induction xs) auto

lemma sum_list_gap:
  fixes f g :: "'a \<Rightarrow> nat"
  assumes "\<forall>x \<in> set xs. f x \<le> g x" "j < length xs"
  shows "sum_list (map f xs) + (g (xs ! j) - f (xs ! j)) \<le> sum_list (map g xs)"
  using assms
proof (induction xs arbitrary: j)
  case Nil
  then show ?case by simp
next
  case (Cons x xs)
  have le: "sum_list (map f xs) \<le> sum_list (map g xs)"
    using Cons.prems(1) by (intro sum_list_mono) simp
  show ?case
  proof (cases j)
    case 0
    then show ?thesis using le Cons.prems(1) by simp
  next
    case (Suc k)
    then have "sum_list (map f xs) + (g (xs ! k) - f (xs ! k)) \<le> sum_list (map g xs)"
      using Cons.IH [of k] Cons.prems by simp
    moreover have "f x \<le> g x" using Cons.prems(1) by simp
    ultimately show ?thesis using Suc by simp
  qed
qed

lemma power_gap:
  fixes B s d :: nat
  assumes "1 \<le> d" "d \<le> s" "s + 1 < B"
  shows "B ^ (s - d) + d * B ^ (d - 1) < B ^ s"
proof -
  have B1: "1 \<le> B" using assms by simp
  have "B ^ (s - d) \<le> B ^ (s - 1)" using assms B1 by (intro power_increasing) auto
  moreover have "B ^ (d - 1) \<le> B ^ (s - 1)" using assms B1 by (intro power_increasing) auto
  then have "d * B ^ (d - 1) \<le> d * B ^ (s - 1)" by (rule mult_le_mono2)
  ultimately have "B ^ (s - d) + d * B ^ (d - 1) \<le> B ^ (s - 1) + d * B ^ (s - 1)"
    by (rule add_mono)
  then have "B ^ (s - d) + d * B ^ (d - 1) \<le> (1 + d) * B ^ (s - 1)" by simp
  also have "\<dots> < B * B ^ (s - 1)"
  proof -
    have "0 < B ^ (s - 1)" using B1 by simp
    moreover have "1 + d < B" using assms by simp
    ultimately show ?thesis by (rule mult_strict_right_mono [rotated])
  qed
  also have "\<dots> = B ^ s"
  proof -
    have "s = Suc (s - 1)" using assms by simp
    then show ?thesis using power_Suc [of B "s - 1"] by simp
  qed
  finally show ?thesis .
qed

lemma weight_propagated:
  assumes K': "K' = map f K @ ex"
    and f: "\<And>s. cells (f s) = cells s - D"
    and ex: "\<forall>e \<in> set ex. \<exists>c \<in> D. cells e \<subseteq> D - {c}"
    and len: "length ex \<le> card D"
    and fin: "\<forall>s \<in> set K. finite (cells s)"
    and D: "D \<noteq> {}" "finite D"
    and j: "j < length K" "D \<subseteq> cells (K ! j)"
    and B: "\<forall>s \<in> set K. card (cells s) + 1 < B"
  shows "weight B K' < weight B K"
proof -
  let ?s = "card (cells (K ! j))" and ?d = "card D"
  have Kj: "K ! j \<in> set K" using j(1) by simp
  have B1: "1 \<le> B" using B Kj by force
  have d1: "1 \<le> ?d" using D by (simp add: Suc_leI card_gt_0_iff)
  have ds: "?d \<le> ?s" using j(2) fin Kj by (intro card_mono) auto
  have sB: "?s + 1 < B" using B Kj by blast
  have exw: "weight B ex \<le> ?d * B ^ (?d - 1)"
  proof -
    have "\<forall>e \<in> set ex. B ^ card (cells e) \<le> B ^ (?d - 1)"
    proof
      fix e assume "e \<in> set ex"
      then obtain c where c: "c \<in> D" "cells e \<subseteq> D - {c}" using ex by blast
      have "card (cells e) \<le> card (D - {c})" using c(2) D(2) by (intro card_mono) auto
      also have "\<dots> = ?d - 1" using c(1) D(2) by simp
      finally show "B ^ card (cells e) \<le> B ^ (?d - 1)" using B1 by (intro power_increasing) auto
    qed
    then have "weight B ex \<le> length ex * B ^ (?d - 1)"
      unfolding weight_def by (rule sum_list_bounded)
    also have "\<dots> \<le> ?d * B ^ (?d - 1)" using len by simp
    finally show ?thesis .
  qed
  have mapw: "weight B (map f K) + (B ^ ?s - B ^ (?s - ?d)) \<le> weight B K"
  proof -
    have le: "\<forall>s \<in> set K. B ^ card (cells (f s)) \<le> B ^ card (cells s)"
    proof
      fix s assume "s \<in> set K"
      then have "card (cells s - D) \<le> card (cells s)" using fin by (intro card_mono) auto
      then show "B ^ card (cells (f s)) \<le> B ^ card (cells s)"
        using B1 f by (simp add: power_increasing)
    qed
    have "card (cells (K ! j) - D) = ?s - ?d"
      using j(2) D(2) by (simp add: card_Diff_subset)
    then have "B ^ card (cells (f (K ! j))) = B ^ (?s - ?d)" using f by simp
    then show ?thesis
      using sum_list_gap [OF le j(1)] by (simp add: weight_def comp_def)
  qed
  have gap: "B ^ (?s - ?d) + ?d * B ^ (?d - 1) < B ^ ?s" by (rule power_gap [OF d1 ds sB])
  have "weight B K' = weight B (map f K) + weight B ex" using K' by (simp add: weight_append)
  also have "\<dots> \<le> weight B (map f K) + ?d * B ^ (?d - 1)" using exw by simp
  also have "\<dots> < weight B (map f K) + (B ^ ?s - B ^ (?s - ?d))" using gap by simp
  also have "\<dots> \<le> weight B K" by (rule mapw)
  finally show ?thesis .
qed

lemma wf_closure_order: "wf closure_order"
  unfolding closure_order_def by (intro wf_lex_prod wf_less_than)

lemma closure_order_iff:
  "((a', b', c', d'), (a, b, c, d)) \<in> closure_order \<longleftrightarrow>
     a' < a \<or> (a' = a \<and> (b' < b \<or> (b' = b \<and> (c' < c \<or> (c' = c \<and> d' < d)))))"
  by (simp add: closure_order_def)

lemma sound_finite: "sound M st \<Longrightarrow> \<forall>s \<in> set (knowledge st). finite (cells s)"
  by (simp add: sound_def sentence_true_def)

lemma sound_true: "sound M st \<Longrightarrow> \<forall>s \<in> set (knowledge st). sentence_true M s"
  by (simp add: sound_def)

text \<open>Propagation makes the measure smaller.\<close>

lemma propagated_decreases:
  assumes K': "knowledge st' = map f (knowledge st) @ ex"
    and f: "\<And>s. cells (f s) = cells s - D"
    and fid: "\<And>s. cells s \<inter> D = {} \<Longrightarrow> f s = s"
    and ex: "\<forall>e \<in> set ex. \<exists>c \<in> D. cells e \<subseteq> D - {c}"
    and len: "length ex \<le> card D"
    and s: "sound M st" and s': "sound M st'"
    and triv: "D \<inter> M = {} \<or> D \<subseteq> M"
    and D: "D \<noteq> {}" "finite D"
    and j: "j < length (knowledge st)" "D \<subseteq> cells (knowledge st ! j)"
    and B: "bounded B st"
  shows "(closure_measure M B i' j' st', closure_measure M B i j st) \<in> closure_order"
    and "bounded B st'"
proof -
  let ?K = "knowledge st" and ?K' = "knowledge st'"
  have exD: "\<forall>e \<in> set ex. cells e \<subseteq> D" using ex by blast
  have finK: "\<forall>s \<in> set ?K. finite (cells s)" by (rule sound_finite [OF s])
  have finL: "finite (live_cells ?K)" by (rule live_cells_finite [OF finK])
  have sub: "live_cells ?K' \<subseteq> live_cells ?K - D"
    by (rule live_cells_propagated [OF K' f exD sound_true [OF s] sound_true [OF s'] triv])
  have w: "weight B ?K' < weight B ?K"
    using weight_propagated [OF K' f ex len finK D j] B by (simp add: bounded_def)
  show "(closure_measure M B i' j' st', closure_measure M B i j st) \<in> closure_order"
  proof (cases "live_cells ?K \<inter> D = {}")
    case True
    have c: "live_cells ?K' = live_cells ?K \<and> candidates M ?K' \<subseteq> candidates M ?K"
      by (rule candidates_propagated [OF K' f fid exD sound_true [OF s] sound_true [OF s'] triv True])
    then have "card (candidates M ?K') \<le> card (candidates M ?K)"
      using candidates_finite [OF finL] by (intro card_mono) auto
    then show ?thesis using c w unfolding closure_measure_def closure_order_iff by auto
  next
    case False
    then have "live_cells ?K' \<subset> live_cells ?K" using sub by auto
    then have "card (live_cells ?K') < card (live_cells ?K)"
      using finL by (intro psubset_card_mono) auto
    then show ?thesis unfolding closure_measure_def closure_order_iff by simp
  qed
  show "bounded B st'" unfolding bounded_def
  proof
    fix e assume "e \<in> set ?K'"
    then consider s0 where "s0 \<in> set ?K" "e = f s0" | "e \<in> set ex" using K' by auto
    then show "card (cells e) + 1 < B"
    proof cases
      case 1
      have "card (cells e) \<le> card (cells s0)" using 1 f finK by (intro card_mono) auto
      then show ?thesis using B 1(1) by (auto simp: bounded_def)
    next
      case 2
      have Kj: "knowledge st ! j \<in> set ?K" using j(1) by simp
      have "cells e \<subseteq> cells (knowledge st ! j)" using exD 2 j(2) by blast
      then have "card (cells e) \<le> card (cells (knowledge st ! j))"
        using finK Kj by (intro card_mono) auto
      then show ?thesis using B Kj by (auto simp: bounded_def)
    qed
  qed
qed

lemma position_next_col:
  "j < length K \<Longrightarrow> position i (Suc j) K < position i j K"
  by (simp add: position_def)

lemma position_next_row:
  assumes "i < length K" shows "position (Suc i) 0 K < position i j K"
proof -
  have "length K - i = Suc (length K - Suc i)" using assms by simp
  then show ?thesis by (simp add: position_def)
qed

lemma true_zero_disjoint:
  assumes "sentence_true M d" "count d = 0" shows "cells d \<inter> M = {}"
proof -
  have "finite (cells d \<inter> M)" using assms by (simp add: sentence_true_def)
  moreover have "card (cells d \<inter> M) = 0" using assms by (simp add: sentence_true_def)
  ultimately show ?thesis by simp
qed

lemma true_card_subset:
  assumes "sentence_true M d" "count d = int (card (cells d))" shows "cells d \<subseteq> M"
proof -
  have fin: "finite (cells d)" using assms by (simp add: sentence_true_def)
  have "card (cells d \<inter> M) = card (cells d)" using assms by (simp add: sentence_true_def)
  then have "cells d \<inter> M = cells d" using fin by (intro card_subset_eq) auto
  then show ?thesis by auto
qed

lemma closure_body_decreases:
  assumes v: "valid_order enum" and s: "sound M st" and B: "bounded B st"
    and i: "i < length (knowledge st)" and j: "j < length (knowledge st)"
  shows "(closure_measure M B i (Suc j) (closure_body enum i j st), closure_measure M B i j st)
           \<in> closure_order \<and> bounded B (closure_body enum i j st)"
proof -
  let ?K = "knowledge st"
  have s': "sound M (closure_body enum i j st)" by (rule sound_closure_body [OF v s i j])
  have finK: "\<forall>s \<in> set ?K. finite (cells s)" by (rule sound_finite [OF s])
  have Kj: "?K ! j \<in> set ?K" using j by simp
  have tj: "sentence_true M (?K ! j)" using s Kj by (simp add: sound_def)
  from v s i j show ?thesis
  proof (cases rule: closure_body_sound_cases)
    case skip
    then show ?thesis using B position_next_col [OF j, of i]
      unfolding closure_measure_def closure_order_iff by simp
  next
    case (store d)
    have sub: "cells d \<subseteq> cells (?K ! j)" using store(1) by (auto simp: Sentence_def)
    have l: "live_cells (?K @ [d]) = live_cells ?K"
      by (rule live_cells_store [OF Kj tj store(3) sub])
    have c: "card (candidates M (?K @ [d])) < card (candidates M ?K)"
      by (rule candidates_store [OF Kj tj store(3) sub store(4,5) finK])
    have "card (cells d) \<le> card (cells (?K ! j))" using sub finK Kj by (intro card_mono) auto
    then have "bounded B (st\<lparr>knowledge := ?K @ [d]\<rparr>)" using B Kj by (auto simp: bounded_def)
    then show ?thesis using l c unfolding store(6) closure_measure_def closure_order_iff by simp
  next
    case (safe d)
    let ?D = "cells d" and ?cs = "enum (cells d)"
    have fin: "finite ?D" using safe(3) by (simp add: sentence_true_def)
    have cs: "set ?cs = ?D" "distinct ?cs" using v fin by (simp_all add: valid_order_def)
    have cd: "?D = cells (?K ! j) - cells (?K ! i)" using safe(1) by (simp add: Sentence_def)
    obtain ex where ex: "knowledge (fold (add_safes_step d) ?cs st) =
              map (fold sentence_mark_safe ?cs) ?K @ ex"
         "length ex \<le> length ?cs" "\<forall>e \<in> set ex. \<exists>c \<in> ?D. cells e \<subseteq> ?D - {c}"
      using knowledge_add_safes_loop [of ?cs d st] cs(1) by auto
    have len: "length ex \<le> card ?D" using ex(2) distinct_card [OF cs(2)] cs(1) by simp
    have r: "(closure_measure M B i (Suc j) (fold (add_safes_step d) ?cs st), closure_measure M B i j st)
           \<in> closure_order" "bounded B (fold (add_safes_step d) ?cs st)"
    proof -
      have 1: "\<And>s. cells (fold sentence_mark_safe ?cs s) = cells s - ?D"
        using cells_fold_mark_safe cs(1) by simp
      have 2: "\<And>s. cells s \<inter> ?D = {} \<Longrightarrow> fold sentence_mark_safe ?cs s = s"
        using fold_mark_safe_id cs(1) by simp
      have 3: "sound M (fold (add_safes_step d) ?cs st)" using s' safe(5) by simp
      have 4: "?D \<inter> M = {} \<or> ?D \<subseteq> M" using true_zero_disjoint [OF safe(3,4)] by simp
      have 5: "?D \<noteq> {}" using safe(2) cd by auto
      have 6: "?D \<subseteq> cells (?K ! j)" using cd by auto
      show "(closure_measure M B i (Suc j) (fold (add_safes_step d) ?cs st), closure_measure M B i j st)
           \<in> closure_order"
        by (rule propagated_decreases(1) [OF ex(1) 1 2 ex(3) len s 3 4 5 fin j 6 B])
      show "bounded B (fold (add_safes_step d) ?cs st)"
        by (rule propagated_decreases(2) [OF ex(1) 1 2 ex(3) len s 3 4 5 fin j 6 B])
    qed
    then show ?thesis unfolding safe(5) by simp
  next
    case (mine d)
    let ?D = "cells d" and ?cs = "enum (cells d)"
    have fin: "finite ?D" using mine(3) by (simp add: sentence_true_def)
    have cs: "set ?cs = ?D" "distinct ?cs" using v fin by (simp_all add: valid_order_def)
    have cd: "?D = cells (?K ! j) - cells (?K ! i)" using mine(1) by (simp add: Sentence_def)
    obtain ex where ex: "knowledge (fold (add_mines_step d) ?cs st) =
              map (fold sentence_mark_mine ?cs) ?K @ ex"
         "length ex \<le> length ?cs" "\<forall>e \<in> set ex. \<exists>c \<in> ?D. cells e \<subseteq> ?D - {c}"
      using knowledge_add_mines_loop [of ?cs d st] cs(1) by auto
    have len: "length ex \<le> card ?D" using ex(2) distinct_card [OF cs(2)] cs(1) by simp
    have r: "(closure_measure M B i (Suc j) (fold (add_mines_step d) ?cs st), closure_measure M B i j st)
           \<in> closure_order" "bounded B (fold (add_mines_step d) ?cs st)"
    proof -
      have 1: "\<And>s. cells (fold sentence_mark_mine ?cs s) = cells s - ?D"
        using cells_fold_mark_mine cs(1) by simp
      have 2: "\<And>s. cells s \<inter> ?D = {} \<Longrightarrow> fold sentence_mark_mine ?cs s = s"
        using fold_mark_mine_id cs(1) by simp
      have 3: "sound M (fold (add_mines_step d) ?cs st)" using s' mine(6) by simp
      have 4: "?D \<inter> M = {} \<or> ?D \<subseteq> M" using true_card_subset [OF mine(3,4)] by simp
      have 5: "?D \<noteq> {}" using mine(2) cd by auto
      have 6: "?D \<subseteq> cells (?K ! j)" using cd by auto
      show "(closure_measure M B i (Suc j) (fold (add_mines_step d) ?cs st), closure_measure M B i j st)
           \<in> closure_order"
        by (rule propagated_decreases(1) [OF ex(1) 1 2 ex(3) len s 3 4 5 fin j 6 B])
      show "bounded B (fold (add_mines_step d) ?cs st)"
        by (rule propagated_decreases(2) [OF ex(1) 1 2 ex(3) len s 3 4 5 fin j 6 B])
    qed
    then show ?thesis unfolding mine(6) by simp
  qed
qed

text \<open>The nested loops end in every state that agrees with a layout.\<close>

lemma closure_terminates_bounded:
  assumes v: "valid_order enum" and s0: "sound M st0" and B0: "bounded B st0"
  shows "\<exists>fuel. fst (closure enum fuel i0 j0 st0)"
proof -
  define P where "P m \<longleftrightarrow> (\<forall>i j st. m = closure_measure M B i j st \<longrightarrow> sound M st \<longrightarrow>
      bounded B st \<longrightarrow> (\<exists>fuel. fst (closure enum fuel i j st)))" for m
  have "P m" for m
  proof (rule wf_induct_rule [OF wf_closure_order])
    fix x
    assume IH: "\<And>y. (y, x) \<in> closure_order \<Longrightarrow> P y"
    show "P x" unfolding P_def
    proof (intro allI impI)
      fix i j st
      assume x: "x = closure_measure M B i j st" and s: "sound M st" and B: "bounded B st"
      show "\<exists>fuel. fst (closure enum fuel i j st)"
      proof (cases "i < length (knowledge st)")
        case False
        then have "fst (closure enum 0 i j st)" by (simp add: closure_done)
        then show ?thesis by blast
      next
        case i: True
        show ?thesis
        proof (cases "j < length (knowledge st)")
          case False
          have "(closure_measure M B (Suc i) 0 st, x) \<in> closure_order"
            using position_next_row [OF i, of j]
            unfolding x closure_measure_def closure_order_iff by simp
          then have "P (closure_measure M B (Suc i) 0 st)" by (rule IH)
          then obtain fuel where "fst (closure enum fuel (Suc i) 0 st)"
            using s B unfolding P_def by blast
          then have "fst (closure enum (Suc fuel) i j st)"
            using i False by (simp add: closure_next_row)
          then show ?thesis by blast
        next
          case j: True
          have d: "(closure_measure M B i (Suc j) (closure_body enum i j st), x) \<in> closure_order"
            "bounded B (closure_body enum i j st)"
            using closure_body_decreases [OF v s B i j] unfolding x by simp_all
          have s': "sound M (closure_body enum i j st)" by (rule sound_closure_body [OF v s i j])
          have "P (closure_measure M B i (Suc j) (closure_body enum i j st))" using d(1) by (rule IH)
          then obtain fuel where "fst (closure enum fuel i (Suc j) (closure_body enum i j st))"
            using s' d(2) unfolding P_def by blast
          then have "fst (closure enum (Suc fuel) i j st)" using i j by (simp add: closure_next_col)
          then show ?thesis by blast
        qed
      qed
    qed
  qed
  then show ?thesis using s0 B0 unfolding P_def by blast
qed

lemma bounded_exists: "\<exists>B. bounded B st"
proof -
  let ?B = "sum_list (map (\<lambda>s. card (cells s)) (knowledge st)) + 2"
  have "card (cells s) + 1 < ?B" if "s \<in> set (knowledge st)" for s
  proof -
    have "card (cells s) \<le> sum_list (map (\<lambda>s. card (cells s)) (knowledge st))"
      using that by (intro member_le_sum_list) auto
    then show ?thesis by simp
  qed
  then show ?thesis unfolding bounded_def by blast
qed

lemma closure_terminates:
  assumes "valid_order enum" "sound M st"
  shows "\<exists>fuel. fst (closure enum fuel i j st)"
  using closure_terminates_bounded [OF assms] bounded_exists [of st] by blast

lemma add_knowledge_terminates:
  assumes v: "valid_order enum" and s: "sound M st" and t: "truthful M st cell n"
  shows "\<exists>fuel r. add_knowledge enum fuel cell n st = Some r"
proof (cases "add_knowledge_start enum cell n st")
  case (Inl e)
  then show ?thesis by (simp add: add_knowledge_def)
next
  case (Inr st5)
  then have "sound M st5" using sound_add_knowledge_start [OF v s t] by (simp add: result_state_def)
  then obtain fuel where f: "fst (closure enum fuel 0 0 st5)" using closure_terminates [OF v] by blast
  obtain b st' where c: "closure enum fuel 0 0 st5 = (b, st')" by (cases "closure enum fuel 0 0 st5")
  then have "add_knowledge enum fuel cell n st = Some (Inr st')" using f Inr by (simp add: add_knowledge_def)
  then show ?thesis by blast
qed

section \<open>Two sentences that differ by one cell\<close>

lemma pending_kept:
  assumes K': "knowledge st' = map f (knowledge st) @ ex"
    and f: "\<And>s. cells (f s) = cells s - X" and C: "C \<notin> X"
    and pe: "pending p q C st"
  shows "pending p q C st'"
proof -
  have p: "p < length (knowledge st)" and q: "q < length (knowledge st)"
    and Cp: "C \<in> cells (knowledge st ! p)"
    and qp: "cells (knowledge st ! q) = cells (knowledge st ! p) - {C}"
    using pe by (simp_all add: pending_def)
  have np: "knowledge st' ! p = f (knowledge st ! p)" using K' p by (simp add: nth_append)
  have nq: "knowledge st' ! q = f (knowledge st ! q)" using K' q by (simp add: nth_append)
  have 1: "C \<in> cells (knowledge st' ! p)" using np f Cp C by simp
  have "cells (knowledge st' ! q) = (cells (knowledge st ! p) - {C}) - X" using nq f qp by simp
  also have "\<dots> = (cells (knowledge st ! p) - X) - {C}" by blast
  also have "\<dots> = cells (knowledge st' ! p) - {C}" using np f by simp
  finally have 2: "cells (knowledge st' ! q) = cells (knowledge st' ! p) - {C}" .
  have "p < length (knowledge st')" "q < length (knowledge st')" using K' p q by simp_all
  then show ?thesis using 1 2 by (simp add: pending_def)
qed

lemma sop_kept:
  assumes K': "knowledge st' = map f (knowledge st) @ ex"
    and f: "\<And>s. cells (f s) = cells s - X" and C: "C \<in> X \<longrightarrow> C \<in> safes st'"
    and sf: "safes st \<subseteq> safes st'"
    and sop: "settled_or_pending p q C st"
  shows "settled_or_pending p q C st'"
proof (cases "C \<in> safes st'")
  case True
  then show ?thesis by (simp add: settled_or_pending_def)
next
  case False
  then have "C \<notin> X" "C \<notin> safes st" using C sf by auto
  then have "pending p q C st" using sop by (simp add: settled_or_pending_def)
  then have "pending p q C st'" by (rule pending_kept [OF K' f \<open>C \<notin> X\<close>])
  then show ?thesis by (simp add: settled_or_pending_def)
qed

lemma sop_mark_safe: "settled_or_pending p q C st \<Longrightarrow> settled_or_pending p q C (mark_safe c st)"
  by (rule sop_kept [where f = "sentence_mark_safe c" and ex = "[]" and X = "{c}"])
     (simp_all add: sentence_mark_safe_cells subset_insertI)

lemma sop_mark_mine:
  "c \<noteq> C \<Longrightarrow> settled_or_pending p q C st \<Longrightarrow> settled_or_pending p q C (mark_mine c st)"
  by (rule sop_kept [where f = "sentence_mark_mine c" and ex = "[]" and X = "{c}"])
     (simp_all add: sentence_mark_mine_cells)

lemma sop_append:
  "settled_or_pending p q C st \<Longrightarrow> settled_or_pending p q C (st\<lparr>knowledge := knowledge st @ [s]\<rparr>)"
  by (rule sop_kept [where f = "\<lambda>s. s" and ex = "[s]" and X = "{}"]) simp_all

lemma sop_append_new: "settled_or_pending p q C st \<Longrightarrow> settled_or_pending p q C (append_new s st)"
  unfolding append_new_def by (cases "s \<in> set (knowledge st)") (simp_all add: sop_append)

lemma sop_safes: "settled_or_pending p q C st \<Longrightarrow> settled_or_pending p q C (st\<lparr>safes := insert c (safes st)\<rparr>)"
  by (rule sop_kept [where f = "\<lambda>s. s" and ex = "[]" and X = "{}"]) (simp_all add: subset_insertI)

lemma sop_mines: "settled_or_pending p q C st \<Longrightarrow> settled_or_pending p q C (st\<lparr>mines := X\<rparr>)"
  by (rule sop_kept [where f = "\<lambda>s. s" and ex = "[]" and X = "{}"]) simp_all

lemma sop_moves: "settled_or_pending p q C st \<Longrightarrow> settled_or_pending p q C (st\<lparr>moves_made := X\<rparr>)"
  by (rule sop_kept [where f = "\<lambda>s. s" and ex = "[]" and X = "{}"]) simp_all

lemma sop_add_safes_step:
  assumes "settled_or_pending p q C st" shows "settled_or_pending p q C (add_safes_step d c st)"
proof -
  let ?st2 = "(mark_safe c st)\<lparr>safes := insert c (safes (mark_safe c st))\<rparr>"
  have 2: "settled_or_pending p q C ?st2" by (intro sop_safes sop_mark_safe assms)
  then have "settled_or_pending p q C (append_new (Sentence (cells d - {c}) (count d)) ?st2)"
    by (rule sop_append_new)
  with 2 show ?thesis unfolding add_safes_step_def Let_def
    by (cases "1 < card (cells d)") simp_all
qed

lemma sop_add_mines_step:
  assumes "settled_or_pending p q C st" "c \<noteq> C"
  shows "settled_or_pending p q C (add_mines_step d c st)"
proof -
  let ?st2 = "(mark_mine c st)\<lparr>mines := insert c (mines (mark_mine c st))\<rparr>"
  have 2: "settled_or_pending p q C ?st2" by (intro sop_mines sop_mark_mine assms)
  then have "settled_or_pending p q C (append_new (Sentence (cells d - {c}) (count d - 1)) ?st2)"
    by (rule sop_append_new)
  with 2 show ?thesis unfolding add_mines_step_def Let_def
    by (cases "1 < card (cells d)") simp_all
qed

lemma sop_add_safes_loop:
  "settled_or_pending p q C st \<Longrightarrow> settled_or_pending p q C (fold (add_safes_step d) cs st)"
  by (induction cs arbitrary: st) (simp_all add: sop_add_safes_step)

lemma sop_add_mines_loop:
  "C \<notin> set cs \<Longrightarrow> settled_or_pending p q C st \<Longrightarrow>
   settled_or_pending p q C (fold (add_mines_step d) cs st)"
  by (induction cs arbitrary: st) (auto simp: sop_add_mines_step)

lemma sop_add_safes:
  "settled_or_pending p q C st \<Longrightarrow> settled_or_pending p q C (add_safes enum d st)"
  unfolding add_safes_def by (rule sop_add_safes_loop)

lemma sop_add_mines:
  assumes v: "valid_order enum" and t: "sentence_true M d" and C: "C \<notin> M"
    and s: "settled_or_pending p q C st"
  shows "settled_or_pending p q C (add_mines enum d st)"
proof (cases "count d = int (card (cells d))")
  case False
  then show ?thesis using s by (simp add: add_mines_noncard [OF v])
next
  case True
  have "cells d \<subseteq> M" by (rule true_card_subset [OF t True])
  moreover have "set (enum (cells d)) = cells d"
    using v t by (simp add: valid_order_def sentence_true_def)
  ultimately have "C \<notin> set (enum (cells d))" using C by auto
  then show ?thesis using s by (simp add: add_mines_card [OF True] sop_add_mines_loop)
qed

lemma safes_add_safes_loop: "set cs \<subseteq> safes (fold (add_safes_step d) cs st)"
proof (induction cs arbitrary: st)
  case Nil show ?case by simp
next
  case (Cons c cs)
  have "c \<in> safes (add_safes_step d c st)"
    unfolding add_safes_step_def Let_def by (cases "1 < card (cells d)") simp_all
  moreover have "extends (add_safes_step d c st) (fold (add_safes_step d) cs (add_safes_step d c st))"
    by (rule extends_fold) (rule extends_add_safes_step)
  ultimately have "c \<in> safes (fold (add_safes_step d) cs (add_safes_step d c st))"
    by (auto simp: extends_def)
  then show ?case using Cons [of "add_safes_step d c st"] by simp
qed

lemma sop_closure_body:
  assumes v: "valid_order enum" and s: "sound M st" and C: "C \<notin> M"
    and i: "i < length (knowledge st)" and j: "j < length (knowledge st)"
    and sop: "settled_or_pending p q C st"
  shows "settled_or_pending p q C (closure_body enum i j st)"
  using v s i j
proof (cases rule: closure_body_sound_cases)
  case skip
  then show ?thesis using sop by simp
next
  case (store d)
  then show ?thesis using sop by (simp add: sop_append)
next
  case (safe d)
  then show ?thesis using sop by (simp add: sop_add_safes_loop)
next
  case (mine d)
  have "cells d \<subseteq> M" by (rule true_card_subset [OF mine(3,4)])
  moreover have "set (enum (cells d)) = cells d"
    using v mine(3) by (simp add: valid_order_def sentence_true_def)
  ultimately have "C \<notin> set (enum (cells d))" using C by auto
  then show ?thesis using sop mine(6) by (simp add: sop_add_mines_loop)
qed

text \<open>When the loops come to the pair, the cell is marked safe.\<close>

lemma pending_hit:
  assumes v: "valid_order enum" and s: "sound M st" and C: "C \<notin> M"
    and pe: "pending p q C st"
  shows "C \<in> safes (closure_body enum q p st)"
proof -
  let ?a = "knowledge st ! q" and ?b = "knowledge st ! p"
  have p: "p < length (knowledge st)" and q: "q < length (knowledge st)"
    and Cb: "C \<in> cells ?b" and ab: "cells ?a = cells ?b - {C}"
    using pe by (simp_all add: pending_def)
  have sub: "cells ?a \<subset> cells ?b" using Cb ab by auto
  have diff: "cells ?b - cells ?a = {C}" using Cb ab by auto
  from v s q p show ?thesis
  proof (cases rule: closure_body_sound_cases)
    case skip
    have a: "sentence_true M ?a" and b: "sentence_true M ?b"
      using s p q by (simp_all add: sound_def)
    define d where "d = Sentence (cells ?b - cells ?a) (count ?b - count ?a)"
    have td: "sentence_true M d" unfolding d_def using sentence_true_difference [OF a b] sub by auto
    have cd: "cells d = {C}" using diff by (simp add: d_def Sentence_def)
    then have c0: "count d = 0" using td C by (simp add: sentence_true_def)
    have ne: "?a \<noteq> ?b" using sub by auto
    have "closure_body enum q p st = fold (add_safes_step d) (enum (cells d)) st"
    proof -
      have "count d \<noteq> int (card (cells d))" using c0 cd by simp
      then have "add_mines enum d (add_safes enum d st) = fold (add_safes_step d) (enum (cells d)) st"
        using c0 by (simp add: add_mines_noncard [OF v] add_safes_zero)
      then show ?thesis using sub ne c0 unfolding closure_body_def Let_def d_def by simp
    qed
    moreover have "set (enum (cells d)) = {C}" using v cd by (simp add: valid_order_def)
    ultimately show ?thesis using safes_add_safes_loop [of "enum (cells d)" d st] by auto
  next
    case (store d)
    have "cells d = {C}" using store(1) diff by (simp add: Sentence_def)
    then have "count d = 0" using store(3) C by (simp add: sentence_true_def)
    then show ?thesis using store(4) by (simp add: nontrivial_def)
  next
    case (safe d)
    have "cells d = {C}" using safe(1) diff by (simp add: Sentence_def)
    then have "set (enum (cells d)) = {C}" using v by (simp add: valid_order_def)
    then show ?thesis using safes_add_safes_loop [of "enum (cells d)" d st] safe(5) by auto
  next
    case (mine d)
    have "cells d = {C}" using mine(1) diff by (simp add: Sentence_def)
    then have "count d = 0" using mine(3) C by (simp add: sentence_true_def)
    then show ?thesis using mine(5) by simp
  qed
qed

lemma safes_closure_body: "C \<in> safes st \<Longrightarrow> C \<in> safes (closure_body enum i j st)"
  using extends_closure_body [of st enum i j] by (auto simp: extends_def)

lemma pending_lengths:
  "pending p q C st \<Longrightarrow> p < length (knowledge st) \<and> q < length (knowledge st)"
  by (simp add: pending_def)

lemma closure_reaches:
  assumes v: "valid_order enum" and C: "C \<notin> M"
  shows "sound M st \<Longrightarrow>
         C \<in> safes st \<or> (pending p q C st \<and> (i < q \<or> (i = q \<and> j \<le> p))) \<Longrightarrow>
         closure enum fuel i j st = (True, st') \<Longrightarrow> C \<in> safes st'"
proof (induction fuel arbitrary: i j st)
  case 0
  show ?case
  proof (cases "i < length (knowledge st)")
    case True
    then show ?thesis using "0.prems"(3) by (simp add: closure_no_fuel)
  next
    case False
    then have "st' = st" using "0.prems"(3) by (simp add: closure_done)
    then show ?thesis using "0.prems"(2) False by (auto dest: pending_lengths)
  qed
next
  case (Suc fuel)
  show ?case
  proof (cases "i < length (knowledge st)")
    case False
    then have "st' = st" using Suc.prems(3) by (simp add: closure_done)
    then show ?thesis using Suc.prems(2) False by (auto dest: pending_lengths)
  next
    case i: True
    show ?thesis
    proof (cases "j < length (knowledge st)")
      case False
      then have c: "closure enum fuel (Suc i) 0 st = (True, st')"
        using i Suc.prems(3) by (simp add: closure_next_row)
      have "C \<in> safes st \<or> (pending p q C st \<and> (Suc i < q \<or> (Suc i = q \<and> 0 \<le> p)))"
        using Suc.prems(2) False by (auto dest: pending_lengths)
      then show ?thesis by (rule Suc.IH [OF Suc.prems(1) _ c])
    next
      case j: True
      let ?st1 = "closure_body enum i j st"
      have c: "closure enum fuel i (Suc j) ?st1 = (True, st')"
        using i j Suc.prems(3) by (simp add: closure_next_col)
      have s1: "sound M ?st1" by (rule sound_closure_body [OF v Suc.prems(1) i j])
      have "C \<in> safes ?st1 \<or> (pending p q C ?st1 \<and> (i < q \<or> (i = q \<and> Suc j \<le> p)))"
      proof (cases "C \<in> safes st")
        case True
        then show ?thesis using safes_closure_body by simp
      next
        case False
        then have pe: "pending p q C st" and pos: "i < q \<or> (i = q \<and> j \<le> p)"
          using Suc.prems(2) by simp_all
        show ?thesis
        proof (cases "i = q \<and> j = p")
          case True
          then show ?thesis using pending_hit [OF v Suc.prems(1) C pe] by simp
        next
          case False
          have "settled_or_pending p q C ?st1"
            by (rule sop_closure_body [OF v Suc.prems(1) C i j])
               (simp add: settled_or_pending_def pe)
          then show ?thesis using pos False by (auto simp: settled_or_pending_def)
        qed
      qed
      then show ?thesis by (rule Suc.IH [OF s1 _ c])
    qed
  qed
qed

lemma third_cell_safe:
  assumes a: "sentence_true M (Sentence {A, B, C} 1)" and b: "sentence_true M (Sentence {A, B} 1)"
    and CA: "C \<noteq> A" and CB: "C \<noteq> B"
  shows "C \<notin> M"
proof
  assume C: "C \<in> M"
  have 1: "card ({A, B, C} \<inter> M) = 1" using a by (simp add: sentence_true_def Sentence_def)
  have 2: "card ({A, B} \<inter> M) = 1" using b by (simp add: sentence_true_def Sentence_def)
  have "{A, B, C} \<inter> M = insert C ({A, B} \<inter> M)" using C by auto
  moreover have "C \<notin> {A, B} \<inter> M" using CA CB by auto
  moreover have "finite ({A, B} \<inter> M)" by simp
  ultimately have "card ({A, B, C} \<inter> M) = Suc (card ({A, B} \<inter> M))" by simp
  then show False using 1 2 by simp
qed

lemma sop_add_knowledge_start:
  assumes v: "valid_order enum" and s: "sound M st" and t: "truthful M st cell n"
    and C: "C \<notin> M" and sop: "settled_or_pending p q C st"
    and start: "add_knowledge_start enum cell n st = Inr st5"
  shows "settled_or_pending p q C st5"
proof -
  let ?st2 = "mark_safe cell (st\<lparr>moves_made := insert cell (moves_made st)\<rparr>)"
  have 2: "settled_or_pending p q C ?st2" by (intro sop_mark_safe sop_moves sop)
  show ?thesis
  proof (cases "find_neighbours ?st2 cell")
    case (Inl e)
    then show ?thesis using start by (simp add: add_knowledge_start_def Let_def)
  next
    case (Inr nb)
    have tr: "sentence_true M (Sentence nb n)"
      by (rule truthful_sentence [OF t Inr]) simp_all
    have "settled_or_pending p q C (append_new (Sentence nb n)
            (add_mines enum (Sentence nb n) (add_safes enum (Sentence nb n) ?st2)))"
      by (intro sop_append_new sop_add_mines [OF v tr C] sop_add_safes 2)
    then show ?thesis using start Inr by (simp add: add_knowledge_start_def Let_def)
  qed
qed


lemma find_neighbours_square_corner:
  "height st = 2 \<Longrightarrow> width st = 2 \<Longrightarrow> find_neighbours st (1, 1) = Inr {(0, 0), (0, 1), (1, 0)}"
  by (auto simp: find_neighbours_def Let_def upto.simps)

lemma triple_sound: "sound {(0, 0)} triple"
  by (simp add: sound_def triple_def sentence_true_def Sentence_def)

lemma triple_truthful: "truthful {(0, 0)} triple (1, 1) 1"
  by (simp add: truthful_def find_neighbours_square_corner triple_def)


lemma triple_sets_differ: "{(0, 1), (0, 0)} \<noteq> {(1, 0), (0, 1), (0::int, 0::int)}"
proof
  assume "{(0, 1), (0, 0)} = {(1, 0), (0, 1), (0::int, 0::int)}"
  then have "(1, 0) \<in> {(0, 1), (0::int, 0::int)}" by blast
  then show False by simp
qed

lemma triple_call:
  assumes v: "valid_order enum"
  shows "add_knowledge enum 9 (1, 1) 1 triple = Some (Inr triple_done)"
  unfolding triple_def triple_done_def
  by (simp add: engine_defs find_neighbours_square_corner
      valid_order_single [OF v] valid_order_empty [OF v] insert_commute triple_sets_differ)

section \<open>Properties of the engine\<close>


lemma sentence_true_in_range: "sentence_true M s \<Longrightarrow> count_in_range s"
  by (auto simp: sentence_true_def count_in_range_def intro: card_mono)

lemma flagged_truthful: "truthful {(0, 0)} (MinesweeperAI 1 2) (0, 1) 1"
  by (simp add: truthful_def find_neighbours_pair_right MinesweeperAI_def)

lemma flagged_reachable:
  assumes "valid_order enum"
  shows "reachable enum {(0, 0)} 1 2 flagged"
  using reachable.clue [OF reachable.init [of enum "{(0, 0)}" 1 2] flagged_truthful
          flagged_call [OF assms]]
  by (simp add: result_state_def)

text \<open>
  Claim C1. For every sequence of truthful reports about one fixed mine layout \<open>M\<close>
  (each reported cell is not a mine and each count is the number of mines among the
  neighbours of the cell), and for every iteration order of the sets, no cell is both in
  \<open>safes\<close> and in \<open>mines\<close> at any point of the execution: between the calls, between
  the statements of \<^verbatim>\<open>add_knowledge\<close>, after each round of the loops of \<^verbatim>\<open>add_safes\<close> and
  \<^verbatim>\<open>add_mines\<close>, and after any number of steps of the nested loops, whether or not they
  end. The theorem does not need the reports to be about different cells.
\<close>

theorem safes_mines_disjoint:
  assumes "engine_point enum M h w st" and "valid_order enum"
  shows "safes st \<inter> mines st = {}"
  using engine_point_sound [OF assms] by (auto simp: sound_def)

theorem safes_mines_disjoint_witness:
  "engine_point sorted_list_of_set {(0, 0)} 1 2 flagged \<and> valid_order sorted_list_of_set \<and>
   safes flagged = {(0, 1)} \<and> mines flagged = {(0, 0)} \<and> safes flagged \<inter> mines flagged = {}"
  using safes_mines_disjoint [OF engine_point.between [OF flagged_reachable [OF valid_order_sorted]]
          valid_order_sorted]
        engine_point.between [OF flagged_reachable [OF valid_order_sorted]] valid_order_sorted
  by (simp add: flagged_def)

text \<open>
  Claim C2. Let the engine agree with a mine layout (its sentences are true, as the source
  says of the knowledge list) and hold the sentences \<open>{A, B, C} = 1\<close> and \<open>{A, B} = 1\<close>
  with \<open>C\<close> different from \<open>A\<close> and \<open>B\<close>. Then a truthful report of a cell of the board
  returns: the nested loops end, given enough fuel. And in the state that the call returns,
  for whatever fuel it returns, the sentence \<open>{C} = 0\<close> is stored or \<open>C\<close> is in
  \<open>safes\<close>; in fact \<open>C\<close> is in \<open>safes\<close>.
\<close>

theorem subset_inference:
  assumes v: "valid_order enum" and s: "sound M st" and t: "truthful M st cell n"
    and nb: "find_neighbours st cell = Inr nb"
    and k1: "Sentence {A, B, C} 1 \<in> set (knowledge st)"
    and k2: "Sentence {A, B} 1 \<in> set (knowledge st)"
    and CA: "C \<noteq> A" and CB: "C \<noteq> B"
  shows "(\<exists>fuel st'. add_knowledge enum fuel cell n st = Some (Inr st') \<and>
            (Sentence {C} 0 \<in> set (knowledge st') \<or> C \<in> safes st')) \<and>
         (\<forall>fuel r. add_knowledge enum fuel cell n st = Some r \<longrightarrow>
            (\<exists>st'. r = Inr st' \<and> (Sentence {C} 0 \<in> set (knowledge st') \<or> C \<in> safes st')))"
proof -
  have C: "C \<notin> M"
    using third_cell_safe [OF _ _ CA CB] s k1 k2 by (auto simp: sound_def)
  obtain p where p: "p < length (knowledge st)" "knowledge st ! p = Sentence {A, B, C} 1"
    using k1 by (auto simp: in_set_conv_nth)
  obtain q where q: "q < length (knowledge st)" "knowledge st ! q = Sentence {A, B} 1"
    using k2 by (auto simp: in_set_conv_nth)
  have "{A, B} = {A, B, C} - {C}" using CA CB by auto
  then have "pending p q C st" using p q by (simp add: pending_def Sentence_def)
  then have sop: "settled_or_pending p q C st" by (simp add: settled_or_pending_def)
  let ?st2 = "mark_safe cell (st\<lparr>moves_made := insert cell (moves_made st)\<rparr>)"
  have "find_neighbours ?st2 cell = Inr nb" using nb find_neighbours_board [of ?st2 st cell] by simp
  then obtain st5 where start: "add_knowledge_start enum cell n st = Inr st5"
    by (simp add: add_knowledge_start_def Let_def)
  have s5: "sound M st5" using sound_add_knowledge_start [OF v s t] start by (simp add: result_state_def)
  have sop5: "settled_or_pending p q C st5" by (rule sop_add_knowledge_start [OF v s t C sop start])
  have pre: "C \<in> safes st5 \<or> (pending p q C st5 \<and> (0 < q \<or> (0 = q \<and> 0 \<le> p)))"
    using sop5 by (auto simp: settled_or_pending_def)
  have reach: "C \<in> safes st'" if "closure enum fuel 0 0 st5 = (True, st')" for fuel st'
    by (rule closure_reaches [OF v C s5 pre that])
  obtain fuel where f: "fst (closure enum fuel 0 0 st5)" using closure_terminates [OF v s5] by blast
  obtain st' where c: "closure enum fuel 0 0 st5 = (True, st')"
    using f by (cases "closure enum fuel 0 0 st5") auto
  have "add_knowledge enum fuel cell n st = Some (Inr st')" using start c by (simp add: add_knowledge_def)
  then have ex: "\<exists>fuel st'. add_knowledge enum fuel cell n st = Some (Inr st') \<and>
            (Sentence {C} 0 \<in> set (knowledge st') \<or> C \<in> safes st')"
    using reach [OF c] by blast
  have all: "\<exists>st'. r = Inr st' \<and> (Sentence {C} 0 \<in> set (knowledge st') \<or> C \<in> safes st')"
    if "add_knowledge enum fuel cell n st = Some r" for fuel r
    using that
  proof (cases rule: add_knowledge_cases)
    case (raised e)
    then show ?thesis using start by simp
  next
    case (returned st5' st')
    then have "closure enum fuel 0 0 st5 = (True, st')" using start by simp
    then show ?thesis using reach returned(3) by blast
  qed
  show ?thesis using ex all by blast
qed

theorem subset_inference_witness:
  "valid_order sorted_list_of_set \<and> sound {(0, 0)} triple \<and> truthful {(0, 0)} triple (1, 1) 1 \<and>
   add_knowledge sorted_list_of_set 9 (1, 1) 1 triple = Some (Inr triple_done) \<and>
   (1, 0) \<in> safes triple_done \<and>
   (\<exists>fuel st'. add_knowledge sorted_list_of_set fuel (1, 1) 1 triple = Some (Inr st') \<and>
      (Sentence {(1, 0)} 0 \<in> set (knowledge st') \<or> (1, 0) \<in> safes st'))"
  using subset_inference [OF valid_order_sorted triple_sound triple_truthful,
          of "{(0, 0), (0, 1), (1, 0)}" "(0, 0)" "(0, 1)" "(1, 0)"]
    valid_order_sorted triple_sound triple_truthful triple_call [OF valid_order_sorted]
  by (simp add: find_neighbours_square_corner triple_def triple_done_def)

text \<open>
  Claim C4. Under truthful reports, at every point of the execution every stored sentence
  has a count between 0 and the number of its cells. The same holds of every sentence the
  engine builds: the difference of two stored sentences of which one is a strict subset of
  the other, the sentence of a truthful report, and the reduced sentences that
  \<^verbatim>\<open>add_safes\<close> and \<^verbatim>\<open>add_mines\<close> build from a sentence with more than one cell.
\<close>

theorem counts_in_range:
  assumes "engine_point enum M h w st" and "valid_order enum"
  shows "(\<forall>s \<in> set (knowledge st). count_in_range s) \<and>
    (\<forall>i < length (knowledge st). \<forall>j < length (knowledge st).
        cells (knowledge st ! i) \<subset> cells (knowledge st ! j) \<longrightarrow>
        count_in_range (Sentence (cells (knowledge st ! j) - cells (knowledge st ! i))
                                 (count (knowledge st ! j) - count (knowledge st ! i)))) \<and>
    (\<forall>cell n nb. truthful M st cell n \<longrightarrow> find_neighbours st cell = Inr nb \<longrightarrow>
        count_in_range (Sentence nb n)) \<and>
    (\<forall>s cll. 1 < card (cells s) \<longrightarrow> cll \<in> fst (known_safes s) \<longrightarrow>
        count_in_range (Sentence (cells s - {cll}) (count s))) \<and>
    (\<forall>s cll. 1 < card (cells s) \<longrightarrow> cll \<in> fst (known_mines s) \<longrightarrow>
        count_in_range (Sentence (cells s - {cll}) (count s - 1)))"
proof (intro conjI allI impI ballI)
  have s: "sound M st" by (rule engine_point_sound [OF assms])
  { fix x assume "x \<in> set (knowledge st)"
    then show "count_in_range x" using s by (auto simp: sound_def intro: sentence_true_in_range) }
  { fix i j
    assume i: "i < length (knowledge st)" and j: "j < length (knowledge st)"
      and sub: "cells (knowledge st ! i) \<subset> cells (knowledge st ! j)"
    have "sentence_true M (knowledge st ! i)" "sentence_true M (knowledge st ! j)"
      using s i j by (simp_all add: sound_def)
    then have "sentence_true M (Sentence (cells (knowledge st ! j) - cells (knowledge st ! i))
                 (count (knowledge st ! j) - count (knowledge st ! i)))"
      using sub by (intro sentence_true_difference) auto
    then show "count_in_range (Sentence (cells (knowledge st ! j) - cells (knowledge st ! i))
                 (count (knowledge st ! j) - count (knowledge st ! i)))"
      by (rule sentence_true_in_range) }
  { fix cell n nb
    assume "truthful M st cell n" "find_neighbours st cell = Inr nb"
    then have "sentence_true M (Sentence nb n)" by (rule truthful_sentence) simp_all
    then show "count_in_range (Sentence nb n)" by (rule sentence_true_in_range) }
  { fix s :: sentence and cll
    assume "1 < card (cells s)" "cll \<in> fst (known_safes s)"
    then show "count_in_range (Sentence (cells s - {cll}) (count s))"
      by (auto simp: known_safes_def count_in_range_def Sentence_def split: if_splits) }
  { fix s :: sentence and cll
    assume c: "1 < card (cells s)" and k: "cll \<in> fst (known_mines s)"
    then have fin: "finite (cells s)" using card_ge_0_finite [of "cells s"] by simp
    from k have "count s = int (card (cells s))" "cll \<in> cells s"
      by (auto simp: known_mines_def split: if_splits)
    then show "count_in_range (Sentence (cells s - {cll}) (count s - 1))"
      using int_card_remove [OF fin, of cll] c by (simp add: count_in_range_def Sentence_def) }
qed

theorem counts_in_range_witness:
  "engine_point sorted_list_of_set {(0, 0)} 1 2 flagged \<and> valid_order sorted_list_of_set \<and>
   knowledge flagged = [Sentence {(0, 0)} 1] \<and> count_in_range (Sentence {(0, 0)} 1)"
  using counts_in_range [OF engine_point.between [OF flagged_reachable [OF valid_order_sorted]]
          valid_order_sorted]
        engine_point.between [OF flagged_reachable [OF valid_order_sorted]] valid_order_sorted
  by (simp add: flagged_def)

text \<open>
  Claim C3 says that a second call of \<^verbatim>\<open>add_knowledge\<close> with the same arguments, right
  after the first, leaves \<open>safes\<close> and \<open>mines\<close> as the first call produced them. The code
  does not do that. On the board of one row and three columns with a mine at \<open>(0, 0)\<close>,
  after the truthful report of \<open>(0, 1)\<close> with count 1 (state \<open>strip1\<close>), the report of
  \<open>(0, 2)\<close> with count 0 shrinks the stored sentence to \<open>{(0, 0)} = 1\<close> and returns with
  \<open>mines\<close> empty: the mine that this sentence determines is not marked, because a stored
  sentence is never passed to \<^verbatim>\<open>known_mines\<close>, although the docstring of \<^verbatim>\<open>add_knowledge\<close>
  asks to mark every cell that can be concluded to be a mine. The same report made once
  more appends its sentence again; the sentence \<open>{} = 0\<close> left by the first report is a
  strict subset of \<open>{(0, 0)} = 1\<close>, the loops derive \<open>{(0, 0)} = 1\<close> afresh and
  \<^verbatim>\<open>add_mines\<close> adds \<open>(0, 0)\<close> to \<open>mines\<close>. Every set iterated in this run has at most
  one element, so the iteration order plays no role.
\<close>

theorem add_knowledge_not_idempotent:
  "add_knowledge sorted_list_of_set 9 (0, 2) 0 strip1 = Some (Inr strip2) \<and>
   add_knowledge sorted_list_of_set 20 (0, 2) 0 strip2 = Some (Inr strip3) \<and>
   mines strip2 = {} \<and> mines strip3 = {(0, 0)} \<and> mines strip3 \<noteq> mines strip2"
  using strip_call2 [OF valid_order_sorted] strip_call3 [OF valid_order_sorted]
  by (simp add: strip2_def strip3_def)

text \<open>
  Claim C9. The knowledge list is append-only, and at every place where an engine operation
  appends a sentence, no equal sentence is in the list at that moment. The successive values
  that the list takes during \<^verbatim>\<open>add_knowledge\<close> (and during \<^verbatim>\<open>add_safes\<close>, \<^verbatim>\<open>add_mines\<close>
  and the nested loops on their own, for every fuel) are each one step from the one before,
  and they end in the list of the state the operation leaves. A step never shortens the
  list, keeps every stored sentence at its position with at most fewer cells, and when it
  makes the list longer it appends exactly one sentence that was not in the list. The move
  queries leave the list as it is.
\<close>

theorem knowledge_append_only:
  "steps_from (knowledge st) (add_knowledge_trace enum fuel cell n st) \<and>
   (add_knowledge enum fuel cell n st = Some r \<longrightarrow>
      last (knowledge st # add_knowledge_trace enum fuel cell n st) = knowledge (result_state r)) \<and>
   steps_from (knowledge st) (add_safes_trace enum s st) \<and>
   last (knowledge st # add_safes_trace enum s st) = knowledge (add_safes enum s st) \<and>
   steps_from (knowledge st) (add_mines_trace enum s st) \<and>
   last (knowledge st # add_mines_trace enum s st) = knowledge (add_mines enum s st) \<and>
   steps_from (knowledge st) (closure_trace enum fuel i j st) \<and>
   last (knowledge st # closure_trace enum fuel i j st) = knowledge (snd (closure enum fuel i j st)) \<and>
   knowledge_step (knowledge st) (knowledge (mark_safe c st)) \<and>
   knowledge_step (knowledge st) (knowledge (mark_mine c st)) \<and>
   knowledge (snd (make_safe_move enum st)) = knowledge st \<and>
   (make_random_move rnd k st = Some (x, st') \<longrightarrow> knowledge st' = knowledge st) \<and>
   (knowledge_step K K' \<longrightarrow>
      length K \<le> length K' \<and>
      (length K < length K' \<longrightarrow> (\<exists>s. s \<notin> set K \<and> K' = K @ [s])) \<and>
      (\<forall>p < length K. cells (K' ! p) \<subseteq> cells (K ! p)))"
proof -
  have mv: "knowledge (snd (make_safe_move enum st)) = knowledge st"
    by (simp add: make_safe_move_def split: option.splits)
  have rm: "make_random_move rnd k st = Some (x, st') \<longrightarrow> knowledge st' = knowledge st"
    using make_random_move_state [of rnd k st x st'] by auto
  have sh: "knowledge_step K K' \<longrightarrow>
      length K \<le> length K' \<and>
      (length K < length K' \<longrightarrow> (\<exists>s. s \<notin> set K \<and> K' = K @ [s])) \<and>
      (\<forall>p < length K. cells (K' ! p) \<subseteq> cells (K ! p))"
    using knowledge_step_shape [of K K'] by blast
  show ?thesis
    using add_knowledge_trace_ok [of st enum fuel cell n r] add_safes_trace_ok [of st enum s]
      add_mines_trace_ok [of st enum s] closure_trace_ok [of st enum fuel i j]
      knowledge_step_mark_safe [of st c] knowledge_step_mark_mine [of st c] mv rm sh
    by blast
qed

theorem knowledge_append_only_witness:
  "add_knowledge sorted_list_of_set 9 (0, 2) 0 strip1 = Some (Inr strip2) \<and>
   steps_from [Sentence {(0, 0), (0, 2)} 1] (add_knowledge_trace sorted_list_of_set 9 (0, 2) 0 strip1) \<and>
   last ([Sentence {(0, 0), (0, 2)} 1] # add_knowledge_trace sorted_list_of_set 9 (0, 2) 0 strip1)
     = [Sentence {(0, 0)} 1, Sentence {(0, 1)} 0]"
  using knowledge_append_only [where st = strip1 and enum = sorted_list_of_set and fuel = 9
          and cell = "(0, 2)" and n = 0 and r = "Inr strip2"]
    strip_call2 [OF valid_order_sorted]
  by (simp add: result_state_def strip1_def strip2_def)

lemma pair_truthful1: "truthful {} (MinesweeperAI 1 2) (0, 0) 0"
  by (simp add: truthful_def)

lemma pair_truthful2: "truthful {} pair1 (0, 1) 0"
  by (simp add: truthful_def)

text \<open>
  Claim C10. The knowledge list is not free of duplicates: on the board of one row and two
  columns without mines, the truthful reports of \<open>(0, 0)\<close> and then of \<open>(0, 1)\<close>, both
  with count 0, lead to a list that holds the sentence \<open>{} = 0\<close> twice, whatever the
  iteration order. The first report stores \<open>{(0, 1)} = 0\<close>; the second one shrinks it in
  place to \<open>{} = 0\<close>, appends \<open>{(0, 0)} = 0\<close>, and its loops shrink that one to
  \<open>{} = 0\<close> too.
\<close>

theorem knowledge_duplicates:
  assumes "valid_order enum"
  shows "add_knowledge enum 3 (0, 0) 0 (MinesweeperAI 1 2) = Some (Inr pair1) \<and>
         add_knowledge enum 9 (0, 1) 0 pair1 = Some (Inr pair2) \<and>
         reachable enum {} 1 2 pair2 \<and>
         knowledge pair2 ! 0 = knowledge pair2 ! 1 \<and> \<not> distinct (knowledge pair2)"
proof -
  have r1: "reachable enum {} 1 2 pair1"
    using reachable.clue [OF reachable.init [of enum "{}" 1 2] pair_truthful1 pair_call1 [OF assms]]
    by (simp add: result_state_def)
  have "reachable enum {} 1 2 pair2"
    using reachable.clue [OF r1 pair_truthful2 pair_call2 [OF assms]]
    by (simp add: result_state_def)
  then show ?thesis using pair_call1 [OF assms] pair_call2 [OF assms]
    by (simp add: pair2_def)
qed

theorem knowledge_duplicates_witness:
  "valid_order sorted_list_of_set \<and>
   add_knowledge sorted_list_of_set 9 (0, 1) 0 pair1 = Some (Inr pair2) \<and>
   knowledge pair2 = [Sentence {} 0, Sentence {} 0]"
  using knowledge_duplicates [OF valid_order_sorted] valid_order_sorted
  by (simp add: pair2_def)

end
